theory Spec2Isabelle
  imports Main "HOL-Library.Word" "HOL-Library.Signed_Division"
begin

section \<open>Memory: objects of bytes, pointers with offsets\<close>

text \<open>
  The kernel of \<^verbatim>\<open>internal/color/yuyv_to_yuv420p.c\<close> works on four raw
  \<^verbatim>\<open>uint8_t *\<close> pointers. A pointer is modelled as a memory object (a block
  number) together with a byte offset into it; memory maps every block to its
  bytes. Pointer arithmetic moves the offset only, and the offset is a
  mathematical integer: only a dereference is checked. A read or write outside
  the object is undefined behaviour in C; here it is the fault \<open>OutOfBounds\<close>.
  Two pointers may point into the same object, so that overlapping buffers can be
  expressed. The loop counters are C \<^verbatim>\<open>int\<close>s: an increment that leaves the range
  of \<^verbatim>\<open>int\<close> (undefined behaviour as well) is the fault \<open>SignedOverflow\<close>.
\<close>

type_synonym u8 = "8 word"
type_synonym ptr = "nat \<times> int"
type_synonym mem = "nat \<Rightarrow> u8 list"

datatype fault = OutOfBounds | SignedOverflow

definition INT_MAX :: int where
  "INT_MAX = 2147483647"

definition fbind :: "fault + 'a \<Rightarrow> ('a \<Rightarrow> fault + 'b) \<Rightarrow> fault + 'b" where
  "fbind r f = (case r of Inl e \<Rightarrow> Inl e | Inr x \<Rightarrow> f x)"

definition valid :: "mem \<Rightarrow> ptr \<Rightarrow> bool" where
  "valid m p \<longleftrightarrow> 0 \<le> snd p \<and> snd p < int (length (m (fst p)))"

definition peek :: "mem \<Rightarrow> ptr \<Rightarrow> u8" where
  "peek m p = m (fst p) ! nat (snd p)"

definition load :: "mem \<Rightarrow> ptr \<Rightarrow> fault + u8" where
  "load m p = (if valid m p then Inr (peek m p) else Inl OutOfBounds)"

definition store :: "mem \<Rightarrow> ptr \<Rightarrow> u8 \<Rightarrow> fault + mem" where
  "store m p x =
     (if valid m p then Inr (m(fst p := (m (fst p))[nat (snd p) := x]))
      else Inl OutOfBounds)"

definition ptr_add :: "ptr \<Rightarrow> int \<Rightarrow> ptr" where
  "ptr_add p k = (fst p, snd p + k)"

text \<open>
  \<open>fits m p n\<close>: the \<open>n\<close> bytes from \<open>p\<close> on lie inside the object that \<open>p\<close> points
  into (always so for no bytes at all).
\<close>

definition fits :: "mem \<Rightarrow> ptr \<Rightarrow> nat \<Rightarrow> bool" where
  "fits m p n \<longleftrightarrow> n = 0 \<or> (0 \<le> snd p \<and> snd p + int n \<le> int (length (m (fst p))))"

text \<open>The statement \<^verbatim>\<open>*dst = *src\<close>: read one byte, then write it.\<close>

definition copy_byte :: "mem \<Rightarrow> ptr \<Rightarrow> ptr \<Rightarrow> fault + mem" where
  "copy_byte m dst src = fbind (load m src) (store m dst)"


section \<open>The portable row unpackers\<close>

text \<open>
  The body of the loop of \<^verbatim>\<open>unpack_even\<close> (the \<^verbatim>\<open>#else\<close> branch):
  \<^verbatim>\<open>*y++ = *yuyv++; *u++ = *yuyv++; *y++ = *yuyv++; *v++ = *yuyv++;\<close>
  The pointers are the values at the start of the iteration.
\<close>

definition unpack_even_group :: "mem \<Rightarrow> ptr \<Rightarrow> ptr \<Rightarrow> ptr \<Rightarrow> ptr \<Rightarrow> fault + mem" where
  "unpack_even_group m y u v yuyv =
     fbind (copy_byte m y yuyv) (\<lambda>m1.
     fbind (copy_byte m1 u (ptr_add yuyv 1)) (\<lambda>m2.
     fbind (copy_byte m2 (ptr_add y 1) (ptr_add yuyv 2)) (\<lambda>m3.
     copy_byte m3 v (ptr_add yuyv 3))))"

text \<open>
  \<^verbatim>\<open>for (int i = 0; i < stride; i += 4) { ... }\<close>, from the counter value \<open>i\<close>.
  After the body the pointers have advanced by 2, 1, 1 and 4 bytes.
\<close>

function unpack_even_from ::
  "int \<Rightarrow> mem \<Rightarrow> ptr \<Rightarrow> ptr \<Rightarrow> ptr \<Rightarrow> ptr \<Rightarrow> int \<Rightarrow> fault + mem" where
  "unpack_even_from i m y u v yuyv stride =
     (if i < stride then
        fbind (unpack_even_group m y u v yuyv) (\<lambda>m'.
          if i + 4 > INT_MAX then Inl SignedOverflow
          else unpack_even_from (i + 4) m'
                 (ptr_add y 2) (ptr_add u 1) (ptr_add v 1) (ptr_add yuyv 4) stride)
      else Inr m)"
  by pat_completeness auto
termination
  by (relation "measure (\<lambda>(i, m, y, u, v, yuyv, stride). nat (stride - i))") auto

declare unpack_even_from.simps [simp del]

definition unpack_even :: "mem \<Rightarrow> ptr \<Rightarrow> ptr \<Rightarrow> ptr \<Rightarrow> ptr \<Rightarrow> int \<Rightarrow> fault + mem" where
  "unpack_even m y u v yuyv stride = unpack_even_from 0 m y u v yuyv stride"

text \<open>
  The body of the loop of \<^verbatim>\<open>unpack_odd\<close>:
  \<^verbatim>\<open>*y++ = *yuyv++; yuyv++; *y++ = *yuyv++; yuyv++;\<close>
  The two chroma bytes are stepped over without being read.
\<close>

definition unpack_odd_group :: "mem \<Rightarrow> ptr \<Rightarrow> ptr \<Rightarrow> fault + mem" where
  "unpack_odd_group m y yuyv =
     fbind (copy_byte m y yuyv) (\<lambda>m1.
     copy_byte m1 (ptr_add y 1) (ptr_add yuyv 2))"

function unpack_odd_from :: "int \<Rightarrow> mem \<Rightarrow> ptr \<Rightarrow> ptr \<Rightarrow> int \<Rightarrow> fault + mem" where
  "unpack_odd_from i m y yuyv stride =
     (if i < stride then
        fbind (unpack_odd_group m y yuyv) (\<lambda>m'.
          if i + 4 > INT_MAX then Inl SignedOverflow
          else unpack_odd_from (i + 4) m' (ptr_add y 2) (ptr_add yuyv 4) stride)
      else Inr m)"
  by pat_completeness auto
termination
  by (relation "measure (\<lambda>(i, m, y, yuyv, stride). nat (stride - i))") auto

declare unpack_odd_from.simps [simp del]

definition unpack_odd :: "mem \<Rightarrow> ptr \<Rightarrow> ptr \<Rightarrow> int \<Rightarrow> fault + mem" where
  "unpack_odd m y yuyv stride = unpack_odd_from 0 m y yuyv stride"


section \<open>The frame converter\<close>

text \<open>
  \<^verbatim>\<open>for (int row = 0; row < height; row += 2)\<close>, from the counter value \<open>row\<close>.
  \<^verbatim>\<open>stride / 2\<close> and \<^verbatim>\<open>stride / 4\<close> are C divisions, which truncate towards zero
  (\<open>sdiv\<close>). The function returns nothing; the model returns the memory it leaves.
\<close>

function yuyv_to_yuv420p_from ::
  "int \<Rightarrow> mem \<Rightarrow> ptr \<Rightarrow> ptr \<Rightarrow> ptr \<Rightarrow> ptr \<Rightarrow> int \<Rightarrow> int \<Rightarrow> fault + mem" where
  "yuyv_to_yuv420p_from row m y u v yuyv stride height =
     (if row < height then
        fbind (unpack_even m y u v yuyv stride) (\<lambda>m1.
          let y1 = ptr_add y (stride sdiv 2);
              u1 = ptr_add u (stride sdiv 4);
              v1 = ptr_add v (stride sdiv 4);
              yuyv1 = ptr_add yuyv stride
          in fbind (unpack_odd m1 y1 yuyv1 stride) (\<lambda>m2.
               let y2 = ptr_add y1 (stride sdiv 2);
                   yuyv2 = ptr_add yuyv1 stride
               in if row + 2 > INT_MAX then Inl SignedOverflow
                  else yuyv_to_yuv420p_from (row + 2) m2 y2 u1 v1 yuyv2 stride height))
      else Inr m)"
  by pat_completeness auto
termination
  by (relation "measure (\<lambda>(row, m, y, u, v, yuyv, stride, height). nat (height - row))")
     auto

declare yuyv_to_yuv420p_from.simps [simp del]

definition yuyv_to_yuv420p ::
  "mem \<Rightarrow> ptr \<Rightarrow> ptr \<Rightarrow> ptr \<Rightarrow> ptr \<Rightarrow> int \<Rightarrow> int \<Rightarrow> fault + mem" where
  "yuyv_to_yuv420p m y u v yuyv stride height =
     yuyv_to_yuv420p_from 0 m y u v yuyv stride height"


section \<open>The NEON row unpackers\<close>

text \<open>
  With \<^verbatim>\<open>__ARM_NEON\<close> defined the two unpackers are compiled from the other branch of
  the \<^verbatim>\<open>#if\<close>, which works on blocks of 32 source bytes through four intrinsics of
  \<^verbatim>\<open>arm_neon.h\<close>. That header belongs to the compiler, not to the repository, so
  the intrinsics are modelled from what the specification says of them: the loads are
  ``a deinterleave-load primitive that splits even/odd byte streams'', used once on the
  source to split luma from chroma and once on the chroma to split U from V. A vector is
  the list of its lanes, lane 0 first, which is also the order of its bytes in memory.
\<close>

text \<open>Reading and writing \<open>n\<close> consecutive bytes; all of them must be in range.\<close>

definition load_bytes :: "mem \<Rightarrow> ptr \<Rightarrow> nat \<Rightarrow> fault + u8 list" where
  "load_bytes m p n =
     (if fits m p n then Inr (map (\<lambda>t. peek m (ptr_add p (int t))) [0..<n])
      else Inl OutOfBounds)"

definition store_bytes :: "mem \<Rightarrow> ptr \<Rightarrow> u8 list \<Rightarrow> fault + mem" where
  "store_bytes m p xs =
     (if fits m p (length xs)
      then Inr (m(fst p := take (nat (snd p)) (m (fst p)) @ xs @
                           drop (nat (snd p) + length xs) (m (fst p))))
      else Inl OutOfBounds)"

text \<open>
  Modelled from the spec: the de-interleaving of the two-way structure loads, which
  \<^verbatim>\<open>arm_neon.h\<close> provides. Of \<open>2k\<close> bytes, lane \<open>j\<close> of the first vector is byte \<open>2j\<close>
  and lane \<open>j\<close> of the second vector is byte \<open>2j + 1\<close>.
\<close>

definition deinterleave :: "u8 list \<Rightarrow> u8 list \<times> u8 list" where
  "deinterleave bs =
     (map (\<lambda>j. bs ! (2 * j)) [0..<length bs div 2],
      map (\<lambda>j. bs ! (2 * j + 1)) [0..<length bs div 2])"

text \<open>
  Modelled from the spec: \<^verbatim>\<open>vld2q_u8\<close> of \<^verbatim>\<open>arm_neon.h\<close>, missing from the sources. It
  loads 32 consecutive bytes and de-interleaves them into two vectors of 16 lanes.
\<close>

definition vld2q_u8 :: "mem \<Rightarrow> ptr \<Rightarrow> fault + u8 list \<times> u8 list" where
  "vld2q_u8 m p = fbind (load_bytes m p 32) (\<lambda>bs. Inr (deinterleave bs))"

text \<open>
  Modelled from the spec: \<^verbatim>\<open>vst1q_u8\<close> of \<^verbatim>\<open>arm_neon.h\<close>, missing from the sources. It
  stores the 16 lanes of a vector to consecutive bytes.
\<close>

definition vst1q_u8 :: "mem \<Rightarrow> ptr \<Rightarrow> u8 list \<Rightarrow> fault + mem" where
  "vst1q_u8 m p val = store_bytes m p val"

text \<open>
  Modelled from the spec: \<^verbatim>\<open>vld2_u8\<close> of \<^verbatim>\<open>arm_neon.h\<close>, missing from the sources. It
  loads 16 consecutive bytes and de-interleaves them into two vectors of 8 lanes. The
  code applies it to \<^verbatim>\<open>(uint8_t *)(&y_uv.val[1])\<close>, the address of a local vector
  variable, which is not part of the modelled memory: the model applies it to the lanes
  of that vector, and the load cannot fault.
\<close>

definition vld2_u8 :: "u8 list \<Rightarrow> u8 list \<times> u8 list" where
  "vld2_u8 val = deinterleave val"

text \<open>
  Modelled from the spec: \<^verbatim>\<open>vst1_u8\<close> of \<^verbatim>\<open>arm_neon.h\<close>, missing from the sources. It
  stores the 8 lanes of a vector to consecutive bytes.
\<close>

definition vst1_u8 :: "mem \<Rightarrow> ptr \<Rightarrow> u8 list \<Rightarrow> fault + mem" where
  "vst1_u8 m p val = store_bytes m p val"

text \<open>The body of the NEON loop of \<^verbatim>\<open>unpack_even\<close>, before the pointer increments.\<close>

definition unpack_even_neon_block :: "mem \<Rightarrow> ptr \<Rightarrow> ptr \<Rightarrow> ptr \<Rightarrow> ptr \<Rightarrow> fault + mem" where
  "unpack_even_neon_block m y u v yuyv =
     fbind (vld2q_u8 m yuyv) (\<lambda>y_uv.
     fbind (vst1q_u8 m y (fst y_uv)) (\<lambda>m1.
       let u_v = vld2_u8 (snd y_uv)
       in fbind (vst1_u8 m1 u (fst u_v)) (\<lambda>m2.
          vst1_u8 m2 v (snd u_v))))"

function unpack_even_neon_from ::
  "int \<Rightarrow> mem \<Rightarrow> ptr \<Rightarrow> ptr \<Rightarrow> ptr \<Rightarrow> ptr \<Rightarrow> int \<Rightarrow> fault + mem" where
  "unpack_even_neon_from i m y u v yuyv stride =
     (if i < stride then
        fbind (unpack_even_neon_block m y u v yuyv) (\<lambda>m'.
          if i + 32 > INT_MAX then Inl SignedOverflow
          else unpack_even_neon_from (i + 32) m'
                 (ptr_add y 16) (ptr_add u 8) (ptr_add v 8) (ptr_add yuyv 32) stride)
      else Inr m)"
  by pat_completeness auto
termination
  by (relation "measure (\<lambda>(i, m, y, u, v, yuyv, stride). nat (stride - i))") auto

declare unpack_even_neon_from.simps [simp del]

definition unpack_even_neon ::
  "mem \<Rightarrow> ptr \<Rightarrow> ptr \<Rightarrow> ptr \<Rightarrow> ptr \<Rightarrow> int \<Rightarrow> fault + mem" where
  "unpack_even_neon m y u v yuyv stride = unpack_even_neon_from 0 m y u v yuyv stride"

text \<open>\<^verbatim>\<open>vst1q_u8(y, vld2q_u8(yuyv).val[0]);\<close>\<close>

definition unpack_odd_neon_block :: "mem \<Rightarrow> ptr \<Rightarrow> ptr \<Rightarrow> fault + mem" where
  "unpack_odd_neon_block m y yuyv =
     fbind (vld2q_u8 m yuyv) (\<lambda>y_uv. vst1q_u8 m y (fst y_uv))"

function unpack_odd_neon_from :: "int \<Rightarrow> mem \<Rightarrow> ptr \<Rightarrow> ptr \<Rightarrow> int \<Rightarrow> fault + mem" where
  "unpack_odd_neon_from i m y yuyv stride =
     (if i < stride then
        fbind (unpack_odd_neon_block m y yuyv) (\<lambda>m'.
          if i + 32 > INT_MAX then Inl SignedOverflow
          else unpack_odd_neon_from (i + 32) m' (ptr_add y 16) (ptr_add yuyv 32) stride)
      else Inr m)"
  by pat_completeness auto
termination
  by (relation "measure (\<lambda>(i, m, y, yuyv, stride). nat (stride - i))") auto

declare unpack_odd_neon_from.simps [simp del]

definition unpack_odd_neon :: "mem \<Rightarrow> ptr \<Rightarrow> ptr \<Rightarrow> int \<Rightarrow> fault + mem" where
  "unpack_odd_neon m y yuyv stride = unpack_odd_neon_from 0 m y yuyv stride"

text \<open>The frame converter of a NEON build: the same loop over the NEON unpackers.\<close>

function yuyv_to_yuv420p_neon_from ::
  "int \<Rightarrow> mem \<Rightarrow> ptr \<Rightarrow> ptr \<Rightarrow> ptr \<Rightarrow> ptr \<Rightarrow> int \<Rightarrow> int \<Rightarrow> fault + mem" where
  "yuyv_to_yuv420p_neon_from row m y u v yuyv stride height =
     (if row < height then
        fbind (unpack_even_neon m y u v yuyv stride) (\<lambda>m1.
          let y1 = ptr_add y (stride sdiv 2);
              u1 = ptr_add u (stride sdiv 4);
              v1 = ptr_add v (stride sdiv 4);
              yuyv1 = ptr_add yuyv stride
          in fbind (unpack_odd_neon m1 y1 yuyv1 stride) (\<lambda>m2.
               let y2 = ptr_add y1 (stride sdiv 2);
                   yuyv2 = ptr_add yuyv1 stride
               in if row + 2 > INT_MAX then Inl SignedOverflow
                  else yuyv_to_yuv420p_neon_from (row + 2) m2 y2 u1 v1 yuyv2 stride height))
      else Inr m)"
  by pat_completeness auto
termination
  by (relation "measure (\<lambda>(row, m, y, u, v, yuyv, stride, height). nat (height - row))")
     auto

declare yuyv_to_yuv420p_neon_from.simps [simp del]

definition yuyv_to_yuv420p_neon ::
  "mem \<Rightarrow> ptr \<Rightarrow> ptr \<Rightarrow> ptr \<Rightarrow> ptr \<Rightarrow> int \<Rightarrow> int \<Rightarrow> fault + mem" where
  "yuyv_to_yuv420p_neon m y u v yuyv stride height =
     yuyv_to_yuv420p_neon_from 0 m y u v yuyv stride height"


section \<open>The kernel as a sequence of byte copies\<close>

text \<open>
  Every statement of the portable kernel that touches memory copies one byte. A run
  of the kernel is therefore described by the list of its copies, each a pair of
  the destination and the source address, in program order.
\<close>

fun run_copies :: "mem \<Rightarrow> (ptr \<times> ptr) list \<Rightarrow> fault + mem" where
  "run_copies m [] = Inr m"
| "run_copies m (c # cs) = fbind (copy_byte m (fst c) (snd c)) (\<lambda>m'. run_copies m' cs)"

text \<open>
  Group \<open>g\<close> of an even row, \<open>[Y0, U, Y1, V]\<close> at source offset \<open>4g\<close>: \<open>Y0\<close> and \<open>Y1\<close>
  go to luma offsets \<open>2g\<close> and \<open>2g + 1\<close>, \<open>U\<close> and \<open>V\<close> to offset \<open>g\<close> of their planes.
\<close>

definition even_group_copies :: "ptr \<Rightarrow> ptr \<Rightarrow> ptr \<Rightarrow> ptr \<Rightarrow> nat \<Rightarrow> (ptr \<times> ptr) list" where
  "even_group_copies y u v s g =
     [(ptr_add y (2 * int g), ptr_add s (4 * int g)),
      (ptr_add u (int g), ptr_add s (4 * int g + 1)),
      (ptr_add y (2 * int g + 1), ptr_add s (4 * int g + 2)),
      (ptr_add v (int g), ptr_add s (4 * int g + 3))]"

definition even_copies :: "nat \<Rightarrow> ptr \<Rightarrow> ptr \<Rightarrow> ptr \<Rightarrow> ptr \<Rightarrow> (ptr \<times> ptr) list" where
  "even_copies n y u v s = concat (map (even_group_copies y u v s) [0..<n])"

definition odd_group_copies :: "ptr \<Rightarrow> ptr \<Rightarrow> nat \<Rightarrow> (ptr \<times> ptr) list" where
  "odd_group_copies y s g =
     [(ptr_add y (2 * int g), ptr_add s (4 * int g)),
      (ptr_add y (2 * int g + 1), ptr_add s (4 * int g + 2))]"

definition odd_copies :: "nat \<Rightarrow> ptr \<Rightarrow> ptr \<Rightarrow> (ptr \<times> ptr) list" where
  "odd_copies n y s = concat (map (odd_group_copies y s) [0..<n])"

text \<open>
  Row pair \<open>p\<close> of a frame whose luma, chroma and source rows are \<open>dy\<close>, \<open>dc\<close> and
  \<open>ds\<close> bytes apart, each row unpacked as \<open>n\<close> groups.
\<close>

definition pair_copies ::
  "nat \<Rightarrow> int \<Rightarrow> int \<Rightarrow> int \<Rightarrow> ptr \<Rightarrow> ptr \<Rightarrow> ptr \<Rightarrow> ptr \<Rightarrow> nat \<Rightarrow> (ptr \<times> ptr) list" where
  "pair_copies n dy dc ds y u v s p =
     even_copies n (ptr_add y (2 * int p * dy)) (ptr_add u (int p * dc))
       (ptr_add v (int p * dc)) (ptr_add s (2 * int p * ds))
     @ odd_copies n (ptr_add y ((2 * int p + 1) * dy)) (ptr_add s ((2 * int p + 1) * ds))"

definition frame_copies ::
  "nat \<Rightarrow> nat \<Rightarrow> int \<Rightarrow> int \<Rightarrow> int \<Rightarrow> ptr \<Rightarrow> ptr \<Rightarrow> ptr \<Rightarrow> ptr \<Rightarrow> (ptr \<times> ptr) list" where
  "frame_copies P n dy dc ds y u v s = concat (map (pair_copies n dy dc ds y u v s) [0..<P])"

abbreviation valid_frame_copies ::
  "nat \<Rightarrow> nat \<Rightarrow> ptr \<Rightarrow> ptr \<Rightarrow> ptr \<Rightarrow> ptr \<Rightarrow> (ptr \<times> ptr) list" where
  "valid_frame_copies P n y u v s \<equiv> frame_copies P n (2 * int n) (int n) (4 * int n) y u v s"

text \<open>
  The number of iterations of \<^verbatim>\<open>for (i = 0; i < stride; i += 4)\<close> and of
  \<^verbatim>\<open>for (row = 0; row < height; row += 2)\<close>.
\<close>

definition groups :: "int \<Rightarrow> nat" where
  "groups stride = nat ((stride + 3) div 4)"

definition pairs :: "int \<Rightarrow> nat" where
  "pairs height = nat ((height + 1) div 2)"

text \<open>
  The copies of a frame with rows of \<open>n\<close> groups, by plane: byte \<open>j\<close> of luma row \<open>r\<close>
  comes from byte \<open>2j\<close> of source row \<open>r\<close>; byte \<open>g\<close> of chroma row \<open>p\<close> comes from
  byte \<open>4g + k\<close> of source row \<open>2p\<close>, with \<open>k = 1\<close> for U and \<open>k = 3\<close> for V.
\<close>

definition luma_copy :: "nat \<Rightarrow> ptr \<Rightarrow> ptr \<Rightarrow> nat \<Rightarrow> nat \<Rightarrow> ptr \<times> ptr" where
  "luma_copy n y s r j =
     (ptr_add y (int (r * (2 * n) + j)), ptr_add s (int (r * (4 * n) + 2 * j)))"

definition chroma_copy :: "nat \<Rightarrow> nat \<Rightarrow> ptr \<Rightarrow> ptr \<Rightarrow> nat \<Rightarrow> nat \<Rightarrow> ptr \<times> ptr" where
  "chroma_copy k n c s p g =
     (ptr_add c (int (p * n + g)), ptr_add s (int (2 * p * (4 * n) + 4 * g + k)))"

definition plane_copies ::
  "nat \<Rightarrow> nat \<Rightarrow> nat \<Rightarrow> ptr \<Rightarrow> ptr \<Rightarrow> ptr \<Rightarrow> ptr \<Rightarrow> (ptr \<times> ptr) set" where
  "plane_copies R P n y u v s =
     {c. (\<exists>r j. r < R \<and> j < 2 * n \<and> c = luma_copy n y s r j) \<or>
         (\<exists>p g. p < P \<and> g < n \<and> c = chroma_copy 1 n u s p g) \<or>
         (\<exists>p g. p < P \<and> g < n \<and> c = chroma_copy 3 n v s p g)}"

text \<open>
  A list of copies is \<open>functional\<close> when a destination written twice is written from
  the same source, and \<open>separate\<close> when no source is also a destination.
\<close>

definition functional :: "(ptr \<times> ptr) list \<Rightarrow> bool" where
  "functional cs \<longleftrightarrow> (\<forall>c \<in> set cs. \<forall>c' \<in> set cs. fst c = fst c' \<longrightarrow> snd c = snd c')"

definition separate :: "(ptr \<times> ptr) list \<Rightarrow> bool" where
  "separate cs \<longleftrightarrow> (\<forall>c \<in> set cs. snd c \<notin> fst ` set cs)"


section \<open>Buffers\<close>

text \<open>
  A buffer is a pointer with a number of bytes. \<open>fits m p n\<close> says that the buffer
  lies inside the object its pointer points into; \<open>apart\<close> says that two
  buffers do not overlap; \<open>in_span a p n\<close> that address \<open>a\<close> is one of the buffer's.
\<close>

definition apart :: "ptr \<Rightarrow> nat \<Rightarrow> ptr \<Rightarrow> nat \<Rightarrow> bool" where
  "apart p n q k \<longleftrightarrow>
     n = 0 \<or> k = 0 \<or> fst p \<noteq> fst q \<or> snd p + int n \<le> snd q \<or> snd q + int k \<le> snd p"

definition in_span :: "ptr \<Rightarrow> ptr \<Rightarrow> nat \<Rightarrow> bool" where
  "in_span a p n \<longleftrightarrow> fst a = fst p \<and> snd p \<le> snd a \<and> snd a < snd p + int n"

text \<open>
  The buffers of \<open>R\<close> luma rows, \<open>P\<close> chroma rows and \<open>R\<close> source rows, for rows of \<open>n\<close>
  groups (\<open>4n\<close> source bytes, \<open>2n\<close> luma bytes, \<open>n\<close> bytes of each chroma plane).
\<close>

definition planes_apart :: "nat \<Rightarrow> nat \<Rightarrow> nat \<Rightarrow> ptr \<Rightarrow> ptr \<Rightarrow> ptr \<Rightarrow> ptr \<Rightarrow> bool" where
  "planes_apart R P n y u v s \<longleftrightarrow>
     apart y (R * (2 * n)) s (R * (4 * n)) \<and>
     apart u (P * n) s (R * (4 * n)) \<and>
     apart v (P * n) s (R * (4 * n)) \<and>
     apart y (R * (2 * n)) u (P * n) \<and>
     apart y (R * (2 * n)) v (P * n) \<and>
     apart u (P * n) v (P * n)"

definition planes_fit :: "mem \<Rightarrow> nat \<Rightarrow> nat \<Rightarrow> nat \<Rightarrow> ptr \<Rightarrow> ptr \<Rightarrow> ptr \<Rightarrow> ptr \<Rightarrow> bool" where
  "planes_fit m R P n y u v s \<longleftrightarrow>
     fits m y (R * (2 * n)) \<and> fits m u (P * n) \<and> fits m v (P * n) \<and> fits m s (R * (4 * n))"


section \<open>Row pairs\<close>

text \<open>
  Row pair \<open>k\<close> of a frame, in the words of the specification: the even-row unpacker
  on source row \<open>2k\<close>, then the odd-row unpacker on source row \<open>2k + 1\<close>. The luma
  pointer has advanced by \<^verbatim>\<open>stride / 2\<close> for each row before, the chroma pointers by
  \<^verbatim>\<open>stride / 4\<close> for each even row before, the source pointer by \<^verbatim>\<open>stride\<close> for each
  row before.
\<close>

definition row_pair :: "mem \<Rightarrow> ptr \<Rightarrow> ptr \<Rightarrow> ptr \<Rightarrow> ptr \<Rightarrow> int \<Rightarrow> nat \<Rightarrow> fault + mem" where
  "row_pair m y u v yuyv stride k =
     fbind (unpack_even m
              (ptr_add y (2 * int k * (stride sdiv 2)))
              (ptr_add u (int k * (stride sdiv 4)))
              (ptr_add v (int k * (stride sdiv 4)))
              (ptr_add yuyv (2 * int k * stride)) stride)
       (\<lambda>m1. unpack_odd m1
              (ptr_add y ((2 * int k + 1) * (stride sdiv 2)))
              (ptr_add yuyv ((2 * int k + 1) * stride)) stride)"

text \<open>The \<open>n\<close> row pairs \<open>k\<close>, \<open>k + 1\<close>, ... in this order.\<close>

fun row_pairs ::
  "nat \<Rightarrow> nat \<Rightarrow> mem \<Rightarrow> ptr \<Rightarrow> ptr \<Rightarrow> ptr \<Rightarrow> ptr \<Rightarrow> int \<Rightarrow> fault + mem" where
  "row_pairs k 0 m y u v yuyv stride = Inr m"
| "row_pairs k (Suc n) m y u v yuyv stride =
     fbind (row_pair m y u v yuyv stride k) (\<lambda>m'. row_pairs (Suc k) n m' y u v yuyv stride)"


section \<open>Frame conditions\<close>

text \<open>
  \<open>modifies_only B m m'\<close>: from \<open>m\<close> to \<open>m'\<close> no object changes its size and only
  objects in \<open>B\<close> change their contents.
\<close>

definition modifies_only :: "nat set \<Rightarrow> mem \<Rightarrow> mem \<Rightarrow> bool" where
  "modifies_only B m m' \<longleftrightarrow>
     (\<forall>b. length (m' b) = length (m b)) \<and> (\<forall>b. b \<notin> B \<longrightarrow> m' b = m b)"


section \<open>The vectors of a NEON block\<close>

text \<open>
  What the loads of one block of 32 source bytes at \<open>s\<close> hold: the 16 luma lanes, and
  the 8 lanes of the U vector (\<open>k = 1\<close>) and of the V vector (\<open>k = 3\<close>).
\<close>

definition block_luma :: "mem \<Rightarrow> ptr \<Rightarrow> u8 list" where
  "block_luma m s = map (\<lambda>j. peek m (ptr_add s (2 * int j))) [0..<16]"

definition block_chroma :: "nat \<Rightarrow> mem \<Rightarrow> ptr \<Rightarrow> u8 list" where
  "block_chroma k m s = map (\<lambda>g. peek m (ptr_add s (4 * int g + int k))) [0..<8]"


section \<open>Example frames\<close>

text \<open>
  The minimal frame of the specification, \<^verbatim>\<open>width = 4\<close>, \<^verbatim>\<open>height = 2\<close>,
  \<^verbatim>\<open>stride = 8\<close>: object 0 is the luma plane (8 bytes), objects 1 and 2 the U and V
  planes (2 bytes each), object 3 the packed source (16 bytes). The planes start
  with any contents \<open>fy\<close>, \<open>fu\<close>, \<open>fv\<close>; the chroma bytes of source row 1 are any
  \<open>a\<close>, \<open>b\<close>, \<open>c\<close>, \<open>d\<close>.
\<close>

definition minimal_frame ::
  "(nat \<Rightarrow> u8) \<Rightarrow> (nat \<Rightarrow> u8) \<Rightarrow> (nat \<Rightarrow> u8) \<Rightarrow> u8 \<Rightarrow> u8 \<Rightarrow> u8 \<Rightarrow> u8 \<Rightarrow> mem" where
  "minimal_frame fy fu fv a b c d =
     (\<lambda>_. [])(0 := map fy [0..<8], 1 := map fu [0..<2], 2 := map fv [0..<2],
       3 := [100, 128, 101, 64, 102, 128, 103, 64, 110, a, 111, b, 112, c, 113, d])"


text \<open>The minimal frame with zeroed planes and row-1 chroma bytes 1, 2, 3, 4.\<close>

definition zero_frame :: mem where
  "zero_frame = minimal_frame (\<lambda>_. 0) (\<lambda>_. 0) (\<lambda>_. 0) 1 2 3 4"

text \<open>
  The same frame with other planes and other chroma bytes in source row 1: it differs
  from \<open>zero_frame\<close> in the planes and in the odd source row only.
\<close>

definition other_frame :: mem where
  "other_frame = minimal_frame (\<lambda>_. 7) (\<lambda>_. 7) (\<lambda>_. 7) 9 9 9 9"


text \<open>
  A frame of one row pair (\<^verbatim>\<open>stride = 4\<close>, \<^verbatim>\<open>height = 2\<close>) converted in place: object 0
  is both the packed source and the luma plane.
\<close>

definition inplace_frame :: mem where
  "inplace_frame = (\<lambda>_. [])(0 := [1, 2, 3, 4, 5, 6, 7, 8], 1 := [0], 2 := [0])"


text \<open>
  A frame of one row pair whose rows are one NEON block wide (\<^verbatim>\<open>stride = 32\<close>,
  \<^verbatim>\<open>height = 2\<close>): 32 luma bytes, 8 bytes for each chroma plane, 64 source bytes.
\<close>

definition wide_frame :: mem where
  "wide_frame = (\<lambda>_. [])(0 := replicate 32 0, 1 := replicate 8 0, 2 := replicate 8 0,
     3 := map of_nat [0..<64])"

text \<open>
  A frame of two row pairs (\<^verbatim>\<open>stride = 4\<close>, \<^verbatim>\<open>height = 4\<close>): 8 luma bytes, 2 bytes for
  each chroma plane, 16 source bytes; source row \<open>r\<close> is \<open>[10r+10, 10r+11, 10r+12, 10r+13]\<close>.
\<close>

definition tall_frame :: mem where
  "tall_frame = (\<lambda>_. [])(0 := [0, 0, 0, 0, 0, 0, 0, 0], 1 := [0, 0], 2 := [0, 0],
     3 := [10, 11, 12, 13, 20, 21, 22, 23, 30, 31, 32, 33, 40, 41, 42, 43])"

text \<open>
  The same source with other bytes in the three planes and one more object, which is
  none of the four buffers.
\<close>

definition busy_frame :: mem where
  "busy_frame = (\<lambda>_. [])(0 := [1, 2, 3, 4, 5, 6, 7, 8], 1 := [9, 9], 2 := [8, 8],
     3 := [10, 11, 12, 13, 20, 21, 22, 23, 30, 31, 32, 33, 40, 41, 42, 43],
     4 := [77, 78, 79])"


section \<open>Properties of the model\<close>

subsection \<open>Sequencing and pointers\<close>

lemma fbind_Inr [simp]: "fbind (Inr x) f = f x"
  by (simp add: fbind_def)

lemma fbind_Inl [simp]: "fbind (Inl e) f = Inl e"
  by (simp add: fbind_def)

lemma fbind_return [simp]: "fbind r Inr = r"
  by (cases r) simp_all

lemma fbind_assoc: "fbind (fbind r f) g = fbind r (\<lambda>x. fbind (f x) g)"
  by (cases r) simp_all

lemma fbind_eq_Inr: "fbind r f = Inr z \<longleftrightarrow> (\<exists>x. r = Inr x \<and> f x = Inr z)"
  by (cases r) simp_all

lemma ptr_add_0 [simp]: "ptr_add p 0 = p"
  by (simp add: ptr_add_def)

lemma ptr_add_add [simp]: "ptr_add (ptr_add p a) b = ptr_add p (a + b)"
  by (simp add: ptr_add_def)

lemma fst_ptr_add [simp]: "fst (ptr_add p a) = fst p"
  by (simp add: ptr_add_def)

lemma snd_ptr_add [simp]: "snd (ptr_add p a) = snd p + a"
  by (simp add: ptr_add_def)

subsection \<open>The loops as lists of copies\<close>

lemma run_copies_append:
  "run_copies m (cs @ ds) = fbind (run_copies m cs) (\<lambda>m'. run_copies m' ds)"
  by (induction cs arbitrary: m) (simp_all add: fbind_assoc)

lemma concat_map_upt_Suc:
  "concat (map f [0..<Suc n]) = f 0 @ concat (map (\<lambda>g. f (Suc g)) [0..<n])"
proof -
  have "[0..<Suc n] = 0 # map Suc [0..<n]"
    by (simp add: upt_conv_Cons map_Suc_upt del: upt_Suc)
  then show ?thesis by (simp add: comp_def del: upt_Suc)
qed

lemma even_group_copies_Suc:
  "even_group_copies y u v s (Suc g) =
   even_group_copies (ptr_add y 2) (ptr_add u 1) (ptr_add v 1) (ptr_add s 4) g"
  by (simp add: even_group_copies_def algebra_simps)

lemma even_copies_Suc:
  "even_copies (Suc n) y u v s =
   even_group_copies y u v s 0 @
   even_copies n (ptr_add y 2) (ptr_add u 1) (ptr_add v 1) (ptr_add s 4)"
  unfolding even_copies_def concat_map_upt_Suc even_group_copies_Suc ..

lemma unpack_even_group_copies:
  "unpack_even_group m y u v s = run_copies m (even_group_copies y u v s 0)"
  by (simp add: unpack_even_group_def even_group_copies_def)

lemma groups_step:
  "i < stride \<Longrightarrow> nat ((stride - i + 3) div 4) = Suc (nat ((stride - (i + 4) + 3) div 4))"
  by linarith

lemma groups_done: "\<not> i < stride \<Longrightarrow> nat ((stride - i + 3) div 4) = 0"
  by linarith

lemma unpack_even_from_copies:
  "stride \<le> INT_MAX - 3 \<Longrightarrow>
   unpack_even_from i m y u v s stride =
   run_copies m (even_copies (nat ((stride - i + 3) div 4)) y u v s)"
proof (induction i m y u v s stride rule: unpack_even_from.induct)
  case (1 i m y u v s stride)
  show ?case
  proof (cases "i < stride")
    case False
    then show ?thesis
      by (subst unpack_even_from.simps) (simp add: groups_done even_copies_def)
  next
    case True
    with "1.prems" have no: "\<not> i + 4 > INT_MAX" by simp
    have IH: "\<And>m'. unpack_even_from (i + 4) m' (ptr_add y 2) (ptr_add u 1) (ptr_add v 1) (ptr_add s 4) stride =
      run_copies m' (even_copies (nat ((stride - (i + 4) + 3) div 4)) (ptr_add y 2) (ptr_add u 1) (ptr_add v 1) (ptr_add s 4))"
      using "1.IH" [OF True no "1.prems"] .
    show ?thesis
      by (subst unpack_even_from.simps)
         (simp add: True no IH groups_step [OF True] even_copies_Suc run_copies_append
            unpack_even_group_copies)
  qed
qed

lemma odd_group_copies_Suc:
  "odd_group_copies y s (Suc g) = odd_group_copies (ptr_add y 2) (ptr_add s 4) g"
  by (simp add: odd_group_copies_def algebra_simps)

lemma odd_copies_Suc:
  "odd_copies (Suc n) y s =
   odd_group_copies y s 0 @ odd_copies n (ptr_add y 2) (ptr_add s 4)"
  unfolding odd_copies_def concat_map_upt_Suc odd_group_copies_Suc ..

lemma unpack_odd_group_copies:
  "unpack_odd_group m y s = run_copies m (odd_group_copies y s 0)"
  by (simp add: unpack_odd_group_def odd_group_copies_def)

lemma unpack_odd_from_copies:
  "stride \<le> INT_MAX - 3 \<Longrightarrow>
   unpack_odd_from i m y s stride =
   run_copies m (odd_copies (nat ((stride - i + 3) div 4)) y s)"
proof (induction i m y s stride rule: unpack_odd_from.induct)
  case (1 i m y s stride)
  show ?case
  proof (cases "i < stride")
    case False
    then show ?thesis
      by (subst unpack_odd_from.simps) (simp add: groups_done odd_copies_def)
  next
    case True
    with "1.prems" have no: "\<not> i + 4 > INT_MAX" by simp
    have IH: "\<And>m'. unpack_odd_from (i + 4) m' (ptr_add y 2) (ptr_add s 4) stride =
      run_copies m' (odd_copies (nat ((stride - (i + 4) + 3) div 4)) (ptr_add y 2) (ptr_add s 4))"
      using "1.IH" [OF True no "1.prems"] .
    show ?thesis
      by (subst unpack_odd_from.simps)
         (simp add: True no IH groups_step [OF True] odd_copies_Suc run_copies_append
            unpack_odd_group_copies)
  qed
qed

lemma unpack_even_copies:
  "stride \<le> INT_MAX - 3 \<Longrightarrow>
   unpack_even m y u v s stride = run_copies m (even_copies (groups stride) y u v s)"
  by (simp add: unpack_even_def unpack_even_from_copies groups_def)

lemma unpack_odd_copies:
  "stride \<le> INT_MAX - 3 \<Longrightarrow>
   unpack_odd m y s stride = run_copies m (odd_copies (groups stride) y s)"
  by (simp add: unpack_odd_def unpack_odd_from_copies groups_def)

lemma pair_copies_Suc:
  "pair_copies n dy dc ds y u v s (Suc p) =
   pair_copies n dy dc ds (ptr_add y (2 * dy)) (ptr_add u dc) (ptr_add v dc)
     (ptr_add s (2 * ds)) p"
  by (simp add: pair_copies_def algebra_simps)

lemma frame_copies_Suc:
  "frame_copies (Suc P) n dy dc ds y u v s =
   pair_copies n dy dc ds y u v s 0 @
   frame_copies P n dy dc ds (ptr_add y (2 * dy)) (ptr_add u dc) (ptr_add v dc)
     (ptr_add s (2 * ds))"
  unfolding frame_copies_def concat_map_upt_Suc pair_copies_Suc ..

lemma pairs_step:
  "row < height \<Longrightarrow> nat ((height - row + 1) div 2) = Suc (nat ((height - (row + 2) + 1) div 2))"
  by linarith

lemma pairs_done: "\<not> row < height \<Longrightarrow> nat ((height - row + 1) div 2) = 0"
  by linarith

lemma yuyv_to_yuv420p_from_copies:
  "stride \<le> INT_MAX - 3 \<Longrightarrow> height \<le> INT_MAX - 1 \<Longrightarrow>
   yuyv_to_yuv420p_from row m y u v s stride height =
   run_copies m (frame_copies (nat ((height - row + 1) div 2)) (groups stride)
     (stride sdiv 2) (stride sdiv 4) stride y u v s)"
proof (induction row m y u v s stride height rule: yuyv_to_yuv420p_from.induct)
  case (1 row m y u v s stride height)
  show ?case
  proof (cases "row < height")
    case False
    then show ?thesis
      by (subst yuyv_to_yuv420p_from.simps) (simp add: pairs_done frame_copies_def)
  next
    case True
    with "1.prems" have no: "\<not> row + 2 > INT_MAX" by simp
    have IH: "\<And>m'. yuyv_to_yuv420p_from (row + 2) m'
        (ptr_add y (2 * (stride sdiv 2))) (ptr_add u (stride sdiv 4))
        (ptr_add v (stride sdiv 4)) (ptr_add s (2 * stride)) stride height =
      run_copies m' (frame_copies (nat ((height - (row + 2) + 1) div 2)) (groups stride)
        (stride sdiv 2) (stride sdiv 4) stride
        (ptr_add y (2 * (stride sdiv 2))) (ptr_add u (stride sdiv 4))
        (ptr_add v (stride sdiv 4)) (ptr_add s (2 * stride)))"
      using "1.IH" [OF True refl refl refl refl refl refl no "1.prems"]
      by simp
    show ?thesis
      by (subst yuyv_to_yuv420p_from.simps)
         (simp add: True no IH pairs_step [OF True] frame_copies_Suc run_copies_append
            unpack_even_copies unpack_odd_copies "1.prems" pair_copies_def Let_def fbind_assoc)
  qed
qed

lemma yuyv_to_yuv420p_copies:
  "stride \<le> INT_MAX - 3 \<Longrightarrow> height \<le> INT_MAX - 1 \<Longrightarrow>
   yuyv_to_yuv420p m y u v s stride height =
   run_copies m (frame_copies (pairs height) (groups stride)
     (stride sdiv 2) (stride sdiv 4) stride y u v s)"
  by (simp add: yuyv_to_yuv420p_def yuyv_to_yuv420p_from_copies pairs_def)

subsection \<open>What a list of copies leaves in memory\<close>

lemma copy_byte_eq_Inr:
  "copy_byte m d s = Inr m' \<longleftrightarrow>
   valid m d \<and> valid m s \<and> m' = m(fst d := (m (fst d))[nat (snd d) := peek m s])"
  by (auto simp: copy_byte_def load_def store_def)

lemma copy_byte_length:
  "copy_byte m d s = Inr m' \<Longrightarrow> length (m' b) = length (m b)"
  by (auto simp: copy_byte_eq_Inr)

lemma copy_byte_peek:
  "copy_byte m d s = Inr m' \<Longrightarrow> 0 \<le> snd a \<Longrightarrow>
   peek m' a = (if a = d then peek m s else peek m a)"
  by (cases a; cases d) (auto simp: copy_byte_eq_Inr peek_def valid_def nth_list_update)

lemma valid_cong_length:
  "(\<And>b. length (m' b) = length (m b)) \<Longrightarrow> valid m' p = valid m p"
  by (simp add: valid_def)

lemma run_copies_length:
  "run_copies m cs = Inr m' \<Longrightarrow> length (m' b) = length (m b)"
proof (induction cs arbitrary: m)
  case Nil
  then show ?case by simp
next
  case (Cons c cs)
  then obtain m1 where 1: "copy_byte m (fst c) (snd c) = Inr m1" and 2: "run_copies m1 cs = Inr m'"
    by (auto simp: fbind_eq_Inr)
  show ?case using Cons.IH [OF 2] copy_byte_length [OF 1] by simp
qed

lemma run_copies_valid:
  "run_copies m cs = Inr m' \<Longrightarrow> valid m' p = valid m p"
  by (rule valid_cong_length) (rule run_copies_length)

lemma run_copies_succeeds:
  "(\<And>c. c \<in> set cs \<Longrightarrow> valid m (fst c) \<and> valid m (snd c)) \<Longrightarrow>
   \<exists>m'. run_copies m cs = Inr m'"
proof (induction cs arbitrary: m)
  case Nil
  then show ?case by simp
next
  case (Cons c cs)
  have "valid m (fst c)" "valid m (snd c)" using Cons.prems [of c] by simp_all
  then obtain m1 where 1: "copy_byte m (fst c) (snd c) = Inr m1"
    by (simp add: copy_byte_eq_Inr)
  have "\<And>p. valid m1 p = valid m p"
    by (rule valid_cong_length) (rule copy_byte_length [OF 1])
  then have "\<exists>m'. run_copies m1 cs = Inr m'"
    using Cons.prems by (intro Cons.IH) simp
  then show ?case by (simp add: 1)
qed

lemma run_copies_accesses_valid:
  "run_copies m cs = Inr m' \<Longrightarrow> c \<in> set cs \<Longrightarrow> valid m (fst c) \<and> valid m (snd c)"
proof (induction cs arbitrary: m)
  case Nil
  then show ?case by simp
next
  case (Cons c0 cs)
  then obtain m1 where 1: "copy_byte m (fst c0) (snd c0) = Inr m1" and 2: "run_copies m1 cs = Inr m'"
    by (auto simp: fbind_eq_Inr)
  have v: "\<And>p. valid m1 p = valid m p"
    by (rule valid_cong_length) (rule copy_byte_length [OF 1])
  show ?case
  proof (cases "c = c0")
    case True
    then show ?thesis using 1 by (simp add: copy_byte_eq_Inr)
  next
    case False
    with Cons.prems have "c \<in> set cs" by simp
    from Cons.IH [OF 2 this] show ?thesis by (simp add: v)
  qed
qed

lemma run_copies_untouched:
  "run_copies m cs = Inr m' \<Longrightarrow> a \<notin> fst ` set cs \<Longrightarrow> 0 \<le> snd a \<Longrightarrow>
   peek m' a = peek m a"
proof (induction cs arbitrary: m)
  case Nil
  then show ?case by simp
next
  case (Cons c cs)
  then obtain m1 where 1: "copy_byte m (fst c) (snd c) = Inr m1" and 2: "run_copies m1 cs = Inr m'"
    by (auto simp: fbind_eq_Inr)
  have "peek m' a = peek m1 a"
    using Cons.prems by (intro Cons.IH [OF 2]) auto
  also have "\<dots> = peek m a"
    using Cons.prems by (simp add: copy_byte_peek [OF 1])
  finally show ?case .
qed

lemma run_copies_copied:
  "run_copies m cs = Inr m' \<Longrightarrow> functional cs \<Longrightarrow> separate cs \<Longrightarrow> c \<in> set cs \<Longrightarrow>
   peek m' (fst c) = peek m (snd c)"
proof (induction cs arbitrary: m c)
  case Nil
  then show ?case by simp
next
  case (Cons c0 cs)
  then obtain m1 where 1: "copy_byte m (fst c0) (snd c0) = Inr m1" and 2: "run_copies m1 cs = Inr m'"
    by (auto simp: fbind_eq_Inr)
  have f: "functional cs"
    using Cons.prems(2) unfolding functional_def by (meson set_subset_Cons subsetD)
  have s: "separate cs"
    using Cons.prems(3) unfolding separate_def
    by (meson image_mono set_subset_Cons subsetD)
  have vd: "0 \<le> snd (fst c0)" and vs0: "0 \<le> snd (snd c0)"
    using 1 by (simp_all add: copy_byte_eq_Inr valid_def)
  have src: "peek m1 (snd c') = peek m (snd c')" if "c' \<in> set (c0 # cs)" for c'
  proof -
    have "snd c' \<notin> fst ` set (c0 # cs)"
      using that Cons.prems(3) unfolding separate_def by blast
    then have "snd c' \<noteq> fst c0" by simp
    moreover have "valid m (snd c')"
      using run_copies_accesses_valid [OF Cons.prems(1) that] by simp
    ultimately show ?thesis by (simp add: copy_byte_peek [OF 1] valid_def)
  qed
  show ?case
  proof (cases "c \<in> set cs")
    case True
    have "peek m' (fst c) = peek m1 (snd c)" by (rule Cons.IH [OF 2 f s True])
    then show ?thesis using src [of c] True by simp
  next
    case False
    with Cons.prems(4) have c: "c = c0" by simp
    show ?thesis
    proof (cases "fst c0 \<in> fst ` set cs")
      case True
      then obtain c' where c': "c' \<in> set cs" "fst c' = fst c0" by auto
      then have "snd c' = snd c0"
        using Cons.prems(2) unfolding functional_def
        by (meson list.set_intros)
      moreover have "peek m' (fst c') = peek m1 (snd c')" by (rule Cons.IH [OF 2 f s c'(1)])
      ultimately show ?thesis using c c' src [of c'] by simp
    next
      case False
      have "peek m' (fst c0) = peek m1 (fst c0)"
        by (rule run_copies_untouched [OF 2 False vd])
      also have "\<dots> = peek m (snd c0)"
        by (simp add: copy_byte_peek [OF 1] vd)
      finally show ?thesis by (simp add: c)
    qed
  qed
qed

subsection \<open>The copies of a frame, plane by plane\<close>

lemma fits_valid: "fits m p n \<Longrightarrow> t < n \<Longrightarrow> valid m (ptr_add p (int t))"
  by (auto simp: fits_def valid_def)

lemma ptr_add_eq_iff: "ptr_add p a = ptr_add q b \<longleftrightarrow> fst p = fst q \<and> snd p + a = snd q + b"
  by (simp add: ptr_add_def)

lemma apart_neq:
  "apart p n q k \<Longrightarrow> t < n \<Longrightarrow> t' < k \<Longrightarrow> ptr_add p (int t) \<noteq> ptr_add q (int t')"
  by (auto simp: apart_def ptr_add_eq_iff)

lemma in_even_copies:
  "c \<in> set (even_copies n y u v s) \<longleftrightarrow>
   (\<exists>g<n. c = (ptr_add y (2 * int g), ptr_add s (4 * int g)) \<or>
          c = (ptr_add u (int g), ptr_add s (4 * int g + 1)) \<or>
          c = (ptr_add y (2 * int g + 1), ptr_add s (4 * int g + 2)) \<or>
          c = (ptr_add v (int g), ptr_add s (4 * int g + 3)))"
  by (auto simp: even_copies_def even_group_copies_def)

lemma in_odd_copies:
  "c \<in> set (odd_copies n y s) \<longleftrightarrow>
   (\<exists>g<n. c = (ptr_add y (2 * int g), ptr_add s (4 * int g)) \<or>
          c = (ptr_add y (2 * int g + 1), ptr_add s (4 * int g + 2)))"
  by (auto simp: odd_copies_def odd_group_copies_def)

lemma in_frame_copies:
  "c \<in> set (frame_copies P n dy dc ds y u v s) \<longleftrightarrow>
   (\<exists>p<P. c \<in> set (pair_copies n dy dc ds y u v s p))"
  by (auto simp: frame_copies_def)

lemma mult_add_less: "p < P \<Longrightarrow> g < n \<Longrightarrow> p * n + g < P * (n::nat)"
proof -
  assume "p < P" "g < n"
  then have "p * n + g < Suc p * n" by simp
  also have "\<dots> \<le> P * n" using \<open>p < P\<close> by (intro mult_le_mono1) simp
  finally show ?thesis .
qed

lemma mult_add_unique:
  "g < n \<Longrightarrow> g' < n \<Longrightarrow> p * n + g = p' * n + g' \<Longrightarrow> p = p' \<and> g = (g'::nat)"
  by (metis add.commute add_right_cancel div_mult_self3 div_less less_nat_zero_code add_0)

lemma in_pair_copies:
  "c \<in> set (pair_copies n (2 * int n) (int n) (4 * int n) y u v s p) \<longleftrightarrow>
   (\<exists>g<n. c = luma_copy n y s (2 * p) (2 * g) \<or> c = luma_copy n y s (2 * p) (2 * g + 1) \<or>
          c = luma_copy n y s (2 * p + 1) (2 * g) \<or> c = luma_copy n y s (2 * p + 1) (2 * g + 1) \<or>
          c = chroma_copy 1 n u s p g \<or> c = chroma_copy 3 n v s p g)"
  unfolding pair_copies_def set_append Un_iff in_even_copies in_odd_copies
    luma_copy_def chroma_copy_def
  by (simp add: algebra_simps) blast

lemma evenodd_cases: obtains p where "r = 2 * p \<or> r = 2 * p + (1::nat)"
  by (metis add.commute mult_2 oddE evenE add.right_neutral One_nat_def)

lemma set_valid_frame_copies:
  "set (valid_frame_copies P n y u v s) = plane_copies (2 * P) P n y u v s"
proof (intro set_eqI iffI)
  fix c assume "c \<in> set (valid_frame_copies P n y u v s)"
  then obtain p g where p: "p < P" and g: "g < n" and
    c: "c = luma_copy n y s (2 * p) (2 * g) \<or> c = luma_copy n y s (2 * p) (2 * g + 1) \<or>
        c = luma_copy n y s (2 * p + 1) (2 * g) \<or> c = luma_copy n y s (2 * p + 1) (2 * g + 1) \<or>
        c = chroma_copy 1 n u s p g \<or> c = chroma_copy 3 n v s p g"
    unfolding in_frame_copies in_pair_copies by blast
  have r: "2 * p < 2 * P" "2 * p + 1 < 2 * P" and j: "2 * g < 2 * n" "2 * g + 1 < 2 * n"
    using p g by simp_all
  from c r j p g show "c \<in> plane_copies (2 * P) P n y u v s"
    unfolding plane_copies_def mem_Collect_eq by blast
next
  fix c assume "c \<in> plane_copies (2 * P) P n y u v s"
  then consider (Y) r j where "r < 2 * P" "j < 2 * n" "c = luma_copy n y s r j"
    | (U) p g where "p < P" "g < n" "c = chroma_copy 1 n u s p g"
    | (V) p g where "p < P" "g < n" "c = chroma_copy 3 n v s p g"
    unfolding plane_copies_def mem_Collect_eq by blast
  then show "c \<in> set (valid_frame_copies P n y u v s)"
  proof cases
    case Y
    obtain p where r: "r = 2 * p \<or> r = 2 * p + 1" by (rule evenodd_cases)
    obtain g where j: "j = 2 * g \<or> j = 2 * g + 1" by (rule evenodd_cases)
    have "p < P" "g < n" using Y r j by auto
    then show ?thesis
      unfolding in_frame_copies in_pair_copies using r j Y(3) by blast
  next
    case U
    then show ?thesis unfolding in_frame_copies in_pair_copies by blast
  next
    case V
    then show ?thesis unfolding in_frame_copies in_pair_copies by blast
  qed
qed

lemma luma_copy_0: "luma_copy n y s 0 j = (ptr_add y (int j), ptr_add s (2 * int j))"
  by (simp add: luma_copy_def)

lemma chroma_copy_0: "chroma_copy k n c s 0 g = (ptr_add c (int g), ptr_add s (4 * int g + int k))"
  by (simp add: chroma_copy_def)

lemma set_even_copies: "set (even_copies n y u v s) = plane_copies 1 1 n y u v s"
proof (intro set_eqI iffI)
  fix c assume "c \<in> set (even_copies n y u v s)"
  then obtain g where g: "g < n" and
    c: "c = luma_copy n y s 0 (2 * g) \<or> c = chroma_copy 1 n u s 0 g \<or>
        c = luma_copy n y s 0 (2 * g + 1) \<or> c = chroma_copy 3 n v s 0 g"
    unfolding in_even_copies luma_copy_0 chroma_copy_0 by (auto simp: algebra_simps)
  have j: "2 * g < 2 * n" "2 * g + 1 < 2 * n" and z: "(0::nat) < 1"
    using g by simp_all
  from c j g z show "c \<in> plane_copies 1 1 n y u v s"
    unfolding plane_copies_def mem_Collect_eq by blast
next
  fix c assume "c \<in> plane_copies 1 1 n y u v s"
  then consider (Y) j where "j < 2 * n" "c = luma_copy n y s 0 j"
    | (U) g where "g < n" "c = chroma_copy 1 n u s 0 g"
    | (V) g where "g < n" "c = chroma_copy 3 n v s 0 g"
    unfolding plane_copies_def mem_Collect_eq by auto
  then show "c \<in> set (even_copies n y u v s)"
  proof cases
    case Y
    obtain g where j: "j = 2 * g \<or> j = 2 * g + 1" by (rule evenodd_cases)
    have "g < n" using Y j by auto
    then show ?thesis
      unfolding in_even_copies using j Y(2) by (auto simp: luma_copy_0 algebra_simps)
  next
    case U
    then show ?thesis unfolding in_even_copies by (auto simp: chroma_copy_0)
  next
    case V
    then show ?thesis unfolding in_even_copies by (auto simp: chroma_copy_0)
  qed
qed

lemma set_odd_copies: "set (odd_copies n y s) = plane_copies 1 0 n y u v s"
proof (intro set_eqI iffI)
  fix c assume "c \<in> set (odd_copies n y s)"
  then obtain g where g: "g < n" and
    c: "c = luma_copy n y s 0 (2 * g) \<or> c = luma_copy n y s 0 (2 * g + 1)"
    unfolding in_odd_copies luma_copy_0 by (auto simp: algebra_simps)
  have j: "2 * g < 2 * n" "2 * g + 1 < 2 * n" and z: "(0::nat) < 1"
    using g by simp_all
  from c j g z show "c \<in> plane_copies 1 0 n y u v s"
    unfolding plane_copies_def mem_Collect_eq by blast
next
  fix c assume "c \<in> plane_copies 1 0 n y u v s"
  then obtain j where Y: "j < 2 * n" "c = luma_copy n y s 0 j"
    unfolding plane_copies_def mem_Collect_eq by auto
  obtain g where j: "j = 2 * g \<or> j = 2 * g + 1" by (rule evenodd_cases)
  have "g < n" using Y j by auto
  then show "c \<in> set (odd_copies n y s)"
    unfolding in_odd_copies using j Y(2) by (auto simp: luma_copy_0 algebra_simps)
qed

lemma luma_copy_dst:
  "r < R \<Longrightarrow> j < 2 * n \<Longrightarrow>
   \<exists>t < R * (2 * n). fst (luma_copy n y s r j) = ptr_add y (int t)"
  using mult_add_less [of r R j "2 * n"] by (auto simp: luma_copy_def)

lemma luma_copy_src:
  "r < R \<Longrightarrow> j < 2 * n \<Longrightarrow>
   \<exists>t < R * (4 * n). snd (luma_copy n y s r j) = ptr_add s (int t)"
  using mult_add_less [of r R "2 * j" "4 * n"] by (auto simp: luma_copy_def)

lemma chroma_copy_dst:
  "p < P \<Longrightarrow> g < n \<Longrightarrow>
   \<exists>t < P * n. fst (chroma_copy k n c s p g) = ptr_add c (int t)"
  using mult_add_less [of p P g n] by (auto simp: chroma_copy_def)

lemma chroma_copy_src:
  "p < P \<Longrightarrow> g < n \<Longrightarrow> k < 4 \<Longrightarrow> 2 * P \<le> R + 1 \<Longrightarrow>
   \<exists>t < R * (4 * n). snd (chroma_copy k n c s p g) = ptr_add s (int t)"
proof -
  assume "p < P" "g < n" "k < 4" "2 * P \<le> R + 1"
  then have "2 * p * (4 * n) + 4 * g + k < R * (4 * n)"
    using mult_add_less [of "2 * p" R "4 * g + k" "4 * n"] by simp
  then show ?thesis
    unfolding chroma_copy_def snd_conv by blast
qed

lemma plane_copies_cases:
  assumes "c \<in> plane_copies R P n y u v s"
  obtains (Y) r j where "r < R" "j < 2 * n" "c = luma_copy n y s r j"
    | (U) p g where "p < P" "g < n" "c = chroma_copy 1 n u s p g"
    | (V) p g where "p < P" "g < n" "c = chroma_copy 3 n v s p g"
  using assms unfolding plane_copies_def mem_Collect_eq by blast

lemma plane_copies_dst:
  assumes "c \<in> plane_copies R P n y u v s"
  shows "(\<exists>t < R * (2 * n). fst c = ptr_add y (int t)) \<or>
         (\<exists>t < P * n. fst c = ptr_add u (int t)) \<or>
         (\<exists>t < P * n. fst c = ptr_add v (int t))"
  using assms
proof (cases rule: plane_copies_cases)
  case Y then show ?thesis using luma_copy_dst by metis
next
  case U then show ?thesis using chroma_copy_dst by metis
next
  case V then show ?thesis using chroma_copy_dst by metis
qed

lemma plane_copies_src:
  assumes "c \<in> plane_copies R P n y u v s" and RP: "2 * P \<le> R + 1"
  shows "\<exists>t < R * (4 * n). snd c = ptr_add s (int t)"
  using assms(1)
proof (cases rule: plane_copies_cases)
  case Y then show ?thesis using luma_copy_src by metis
next
  case U
  have "(1::nat) < 4" by simp
  from chroma_copy_src [OF U(1,2) this RP] U(3) show ?thesis by metis
next
  case V
  have "(3::nat) < 4" by simp
  from chroma_copy_src [OF V(1,2) this RP] V(3) show ?thesis by metis
qed

lemma separate_plane_copies:
  assumes cs: "set cs \<subseteq> plane_copies R P n y u v s"
    and ap: "planes_apart R P n y u v s" and RP: "2 * P \<le> R + 1"
  shows "separate cs"
  unfolding separate_def
proof (intro ballI notI)
  fix c assume c: "c \<in> set cs" and "snd c \<in> fst ` set cs"
  then obtain c' where c': "c' \<in> set cs" and eq: "fst c' = snd c"
    by auto
  from plane_copies_src [OF _ RP] c cs
  obtain t where t: "t < R * (4 * n)" "snd c = ptr_add s (int t)"
    by blast
  from ap have ys: "apart y (R * (2 * n)) s (R * (4 * n))"
    and us: "apart u (P * n) s (R * (4 * n))"
    and vs: "apart v (P * n) s (R * (4 * n))"
    by (simp_all add: planes_apart_def)
  from c' cs have "c' \<in> plane_copies R P n y u v s" by blast
  from plane_copies_dst [OF this] show False
    using apart_neq [OF ys _ t(1)] apart_neq [OF us _ t(1)] apart_neq [OF vs _ t(1)] eq t(2)
    by metis
qed

lemma luma_copy_functional:
  "fst (luma_copy n y s r j) = fst (luma_copy n y s r' j') \<Longrightarrow>
   snd (luma_copy n y s r j) = snd (luma_copy n y s r' j')"
  by (simp add: luma_copy_def ptr_add_eq_iff algebra_simps)

lemma chroma_copy_functional:
  "g < n \<Longrightarrow> g' < n \<Longrightarrow> fst (chroma_copy k n c s p g) = fst (chroma_copy k n c s p' g') \<Longrightarrow>
   snd (chroma_copy k n c s p g) = snd (chroma_copy k n c s p' g')"
proof -
  assume g: "g < n" "g' < n" and "fst (chroma_copy k n c s p g) = fst (chroma_copy k n c s p' g')"
  then have "int (p * n + g) = int (p' * n + g')"
    by (simp add: chroma_copy_def ptr_add_eq_iff)
  then have "p * n + g = p' * n + g'" by linarith
  from mult_add_unique [OF g this] show ?thesis by simp
qed

lemma functional_plane_copies:
  assumes cs: "set cs \<subseteq> plane_copies R P n y u v s"
    and ap: "planes_apart R P n y u v s"
  shows "functional cs"
  unfolding functional_def
proof (intro ballI impI)
  fix c c' assume "c \<in> set cs" and "c' \<in> set cs" and eq: "fst c = fst c'"
  with cs have c: "c \<in> plane_copies R P n y u v s" and c': "c' \<in> plane_copies R P n y u v s"
    by blast+
  from ap have yu: "apart y (R * (2 * n)) u (P * n)"
    and yv: "apart y (R * (2 * n)) v (P * n)"
    and uv: "apart u (P * n) v (P * n)"
    by (simp_all add: planes_apart_def)
  have yu_ne: "fst (luma_copy n y s r j) \<noteq> fst (chroma_copy k n u s p g)"
    if "r < R" "j < 2 * n" "p < P" "g < n" for r j p g k
    using luma_copy_dst [OF that(1,2), of y s] chroma_copy_dst [OF that(3,4), of k u s]
      apart_neq [OF yu] by metis
  have yv_ne: "fst (luma_copy n y s r j) \<noteq> fst (chroma_copy k n v s p g)"
    if "r < R" "j < 2 * n" "p < P" "g < n" for r j p g k
    using luma_copy_dst [OF that(1,2), of y s] chroma_copy_dst [OF that(3,4), of k v s]
      apart_neq [OF yv] by metis
  have uv_ne: "fst (chroma_copy k n u s p g) \<noteq> fst (chroma_copy k' n v s p' g')"
    if "p < P" "g < n" "p' < P" "g' < n" for p g p' g' k k'
    using chroma_copy_dst [OF that(1,2), of k u s] chroma_copy_dst [OF that(3,4), of k' v s]
      apart_neq [OF uv] by metis
  from c show "snd c = snd c'"
  proof (cases rule: plane_copies_cases)
    case Y
    from c' show ?thesis
    proof (cases rule: plane_copies_cases)
      case Y': Y
      with Y eq show ?thesis using luma_copy_functional by metis
    next
      case U': U
      with Y eq yu_ne show ?thesis by metis
    next
      case V': V
      with Y eq yv_ne show ?thesis by metis
    qed
  next
    case U
    from c' show ?thesis
    proof (cases rule: plane_copies_cases)
      case Y': Y
      with U eq yu_ne show ?thesis by metis
    next
      case U': U
      with U eq show ?thesis using chroma_copy_functional by metis
    next
      case V': V
      with U eq uv_ne show ?thesis by metis
    qed
  next
    case V
    from c' show ?thesis
    proof (cases rule: plane_copies_cases)
      case Y': Y
      with V eq yv_ne show ?thesis by metis
    next
      case U': U
      with V eq uv_ne show ?thesis by metis
    next
      case V': V
      with V eq show ?thesis using chroma_copy_functional by metis
    qed
  qed
qed

lemma plane_copies_succeed:
  assumes cs: "set cs \<subseteq> plane_copies R P n y u v s"
    and fit: "planes_fit m R P n y u v s" and RP: "2 * P \<le> R + 1"
  shows "\<exists>m'. run_copies m cs = Inr m'"
proof (rule run_copies_succeeds)
  fix c assume "c \<in> set cs"
  with cs have c: "c \<in> plane_copies R P n y u v s" by blast
  from fit have fy: "fits m y (R * (2 * n))" and fu: "fits m u (P * n)"
    and fv: "fits m v (P * n)" and fs: "fits m s (R * (4 * n))"
    by (simp_all add: planes_fit_def)
  have "valid m (fst c)"
    using plane_copies_dst [OF c] fits_valid [OF fy] fits_valid [OF fu] fits_valid [OF fv]
    by metis
  moreover have "valid m (snd c)"
    using plane_copies_src [OF c RP] fits_valid [OF fs] by metis
  ultimately show "valid m (fst c) \<and> valid m (snd c)" ..
qed

lemma plane_copies_luma:
  assumes run: "run_copies m cs = Inr m'" and cs: "set cs = plane_copies R P n y u v s"
    and ap: "planes_apart R P n y u v s" and RP: "2 * P \<le> R + 1"
    and r: "r < R" and j: "j < 2 * n"
  shows "peek m' (ptr_add y (int (r * (2 * n) + j))) = peek m (ptr_add s (int (r * (4 * n) + 2 * j)))"
proof -
  have sub: "set cs \<subseteq> plane_copies R P n y u v s" using cs by simp
  have "luma_copy n y s r j \<in> set cs"
    unfolding cs plane_copies_def mem_Collect_eq using r j by blast
  from run_copies_copied [OF run functional_plane_copies [OF sub ap]
      separate_plane_copies [OF sub ap RP] this]
  show ?thesis by (simp add: luma_copy_def)
qed

lemma plane_copies_chroma:
  assumes run: "run_copies m cs = Inr m'" and cs: "set cs = plane_copies R P n y u v s"
    and ap: "planes_apart R P n y u v s" and RP: "2 * P \<le> R + 1"
    and p: "p < P" and g: "g < n"
  shows "peek m' (ptr_add u (int (p * n + g))) = peek m (ptr_add s (int (2 * p * (4 * n) + 4 * g + 1)))"
    and "peek m' (ptr_add v (int (p * n + g))) = peek m (ptr_add s (int (2 * p * (4 * n) + 4 * g + 3)))"
proof -
  have sub: "set cs \<subseteq> plane_copies R P n y u v s" using cs by simp
  have "chroma_copy 1 n u s p g \<in> set cs"
    unfolding cs plane_copies_def mem_Collect_eq using p g by blast
  from run_copies_copied [OF run functional_plane_copies [OF sub ap]
      separate_plane_copies [OF sub ap RP] this]
  show "peek m' (ptr_add u (int (p * n + g))) = peek m (ptr_add s (int (2 * p * (4 * n) + 4 * g + 1)))"
    by (simp add: chroma_copy_def)
  have "chroma_copy 3 n v s p g \<in> set cs"
    unfolding cs plane_copies_def mem_Collect_eq using p g by blast
  from run_copies_copied [OF run functional_plane_copies [OF sub ap]
      separate_plane_copies [OF sub ap RP] this]
  show "peek m' (ptr_add v (int (p * n + g))) = peek m (ptr_add s (int (2 * p * (4 * n) + 4 * g + 3)))"
    by (simp add: chroma_copy_def)
qed

lemma in_span_ptr_add: "t < n \<Longrightarrow> in_span (ptr_add p (int t)) p n"
  by (simp add: in_span_def)

lemma plane_copies_untouched:
  assumes run: "run_copies m cs = Inr m'" and cs: "set cs \<subseteq> plane_copies R P n y u v s"
    and a: "0 \<le> snd a" "\<not> in_span a y (R * (2 * n))" "\<not> in_span a u (P * n)"
      "\<not> in_span a v (P * n)"
  shows "peek m' a = peek m a"
proof (rule run_copies_untouched [OF run _ a(1)])
  show "a \<notin> fst ` set cs"
  proof
    assume "a \<in> fst ` set cs"
    then obtain c where c: "c \<in> set cs" "a = fst c" by auto
    with cs have "c \<in> plane_copies R P n y u v s" by blast
    from plane_copies_dst [OF this] show False
      using a(2-4) c(2) in_span_ptr_add by metis
  qed
qed


subsection \<open>Rows of a valid stride\<close>

lemma valid_stride_eq:
  assumes "0 < stride" and "stride mod 4 = 0" and "n = nat (stride div 4)"
  shows "stride = 4 * int n"
proof -
  have "4 * (stride div 4) = stride" using assms(2) by presburger
  moreover from this have "0 < stride div 4" using assms(1) by linarith
  then have "int n = stride div 4" using assms(3) by simp
  ultimately show ?thesis by linarith
qed

lemma groups_valid [simp]: "groups (4 * int n) = n"
  by (simp add: groups_def)

lemma sdiv_valid [simp]: "(4 * int n) sdiv 2 = 2 * int n" "(4 * int n) sdiv 4 = int n"
  by (auto simp: signed_divide_int_def sgn_mult)

lemma valid_stride_no_overflow: "stride mod 4 = 0 \<Longrightarrow> stride \<le> INT_MAX \<Longrightarrow> stride \<le> INT_MAX - 3"
  unfolding INT_MAX_def by presburger

lemma planes_apart_odd: "planes_apart 1 0 n y u v s \<longleftrightarrow> apart y (2 * n) s (4 * n)"
  by (simp add: planes_apart_def apart_def)

lemma planes_fit_odd: "planes_fit m 1 0 n y u v s \<longleftrightarrow> fits m y (2 * n) \<and> fits m s (4 * n)"
  by (simp add: planes_fit_def fits_def)

lemma even_row_result:
  assumes ap: "planes_apart 1 1 n y u v s" and fit: "planes_fit m 1 1 n y u v s"
  shows "\<exists>m'. run_copies m (even_copies n y u v s) = Inr m' \<and>
        (\<forall>b. length (m' b) = length (m b)) \<and>
        (\<forall>g<n. peek m' (ptr_add y (2 * int g)) = peek m (ptr_add s (4 * int g)) \<and>
               peek m' (ptr_add y (2 * int g + 1)) = peek m (ptr_add s (4 * int g + 2)) \<and>
               peek m' (ptr_add u (int g)) = peek m (ptr_add s (4 * int g + 1)) \<and>
               peek m' (ptr_add v (int g)) = peek m (ptr_add s (4 * int g + 3))) \<and>
        (\<forall>a. 0 \<le> snd a \<and> \<not> in_span a y (2 * n) \<and> \<not> in_span a u n \<and> \<not> in_span a v n \<longrightarrow>
             peek m' a = peek m a)"
proof -
  let ?cs = "even_copies n y u v s"
  have set: "set ?cs = plane_copies 1 1 n y u v s" by (rule set_even_copies)
  have RP: "2 * 1 \<le> 1 + (1::nat)" by simp
  from plane_copies_succeed [OF _ fit RP, of ?cs] set
  obtain m' where run: "run_copies m ?cs = Inr m'" by auto
  have len: "\<forall>b. length (m' b) = length (m b)"
    using run_copies_length [OF run] by simp
  have grp: "peek m' (ptr_add y (2 * int g)) = peek m (ptr_add s (4 * int g)) \<and>
             peek m' (ptr_add y (2 * int g + 1)) = peek m (ptr_add s (4 * int g + 2)) \<and>
             peek m' (ptr_add u (int g)) = peek m (ptr_add s (4 * int g + 1)) \<and>
             peek m' (ptr_add v (int g)) = peek m (ptr_add s (4 * int g + 3))" if g: "g < n" for g
  proof -
    have z: "(0::nat) < 1" and j: "2 * g < 2 * n" "2 * g + 1 < 2 * n" using g by simp_all
    show ?thesis
      using plane_copies_luma [OF run set ap RP z j(1)] plane_copies_luma [OF run set ap RP z j(2)]
        plane_copies_chroma [OF run set ap RP z g]
      by (simp add: algebra_simps)
  qed
  have rest: "peek m' a = peek m a"
    if "0 \<le> snd a" "\<not> in_span a y (2 * n)" "\<not> in_span a u n" "\<not> in_span a v n" for a
    using plane_copies_untouched [OF run _ that(1), of 1 1 n y u v s] set that(2-4) by simp
  from run len grp rest show ?thesis by blast
qed

lemma odd_row_result:
  assumes ap: "apart y (2 * n) s (4 * n)" and fit: "fits m y (2 * n)" "fits m s (4 * n)"
  shows "\<exists>m'. run_copies m (odd_copies n y s) = Inr m' \<and>
        (\<forall>b. length (m' b) = length (m b)) \<and>
        (\<forall>j<2 * n. peek m' (ptr_add y (int j)) = peek m (ptr_add s (2 * int j))) \<and>
        (\<forall>a. 0 \<le> snd a \<and> \<not> in_span a y (2 * n) \<longrightarrow> peek m' a = peek m a)"
proof -
  let ?cs = "odd_copies n y s"
  have set: "set ?cs = plane_copies 1 0 n y y y s" by (rule set_odd_copies)
  have RP: "2 * 0 \<le> 1 + (1::nat)" by simp
  have ap': "planes_apart 1 0 n y y y s" using ap unfolding planes_apart_odd .
  have fit': "planes_fit m 1 0 n y y y s" using fit unfolding planes_fit_odd by simp
  from plane_copies_succeed [OF _ fit' RP, of ?cs] set
  obtain m' where run: "run_copies m ?cs = Inr m'" by auto
  have len: "\<forall>b. length (m' b) = length (m b)"
    using run_copies_length [OF run] by simp
  have lum: "peek m' (ptr_add y (int j)) = peek m (ptr_add s (2 * int j))" if j: "j < 2 * n" for j
  proof -
    have z: "(0::nat) < 1" by simp
    show ?thesis
      using plane_copies_luma [OF run set ap' RP z j] by simp
  qed
  have rest: "peek m' a = peek m a" if "0 \<le> snd a" "\<not> in_span a y (2 * n)" for a
  proof -
    have "\<not> in_span a y (0 * n)" by (simp add: in_span_def)
    with plane_copies_untouched [OF run _ that(1), of 1 0 n y y y s] set that(2)
    show ?thesis by simp
  qed
  from run len lum rest show ?thesis by blast
qed



subsection \<open>The frame as row pairs and as byte copies\<close>

lemma frame_from_row_pairs:
  "height \<le> INT_MAX - 1 \<Longrightarrow> n = nat ((height - row + 1) div 2) \<Longrightarrow>
   yuyv_to_yuv420p_from row m
     (ptr_add y (2 * int k * (stride sdiv 2))) (ptr_add u (int k * (stride sdiv 4)))
     (ptr_add v (int k * (stride sdiv 4))) (ptr_add s (2 * int k * stride)) stride height =
   row_pairs k n m y u v s stride"
proof (induction n arbitrary: row k m)
  case 0
  then have "\<not> row < height" by linarith
  then show ?case by (subst yuyv_to_yuv420p_from.simps) simp
next
  case (Suc n)
  then have lt: "row < height" by linarith
  with Suc.prems have no: "\<not> row + 2 > INT_MAX" by simp
  have n: "n = nat ((height - (row + 2) + 1) div 2)" using Suc.prems(2) by linarith
  have IH: "yuyv_to_yuv420p_from (row + 2) m'
     (ptr_add y (2 * int (Suc k) * (stride sdiv 2))) (ptr_add u (int (Suc k) * (stride sdiv 4)))
     (ptr_add v (int (Suc k) * (stride sdiv 4))) (ptr_add s (2 * int (Suc k) * stride)) stride height =
     row_pairs (Suc k) n m' y u v s stride" for m'
    by (rule Suc.IH [OF Suc.prems(1) n])
  show ?case
    by (subst yuyv_to_yuv420p_from.simps)
       (simp add: lt no IH [symmetric] row_pair_def Let_def fbind_assoc algebra_simps)
qed

lemma yuyv_to_yuv420p_row_pairs:
  "height \<le> INT_MAX - 1 \<Longrightarrow>
   yuyv_to_yuv420p m y u v s stride height = row_pairs 0 (pairs height) m y u v s stride"
  using frame_from_row_pairs [of height "pairs height" 0 m y 0 stride u v s]
  by (simp add: yuyv_to_yuv420p_def pairs_def)

lemma row_pair_copies:
  "stride \<le> INT_MAX - 3 \<Longrightarrow>
   row_pair m y u v s stride k =
   run_copies m (pair_copies (groups stride) (stride sdiv 2) (stride sdiv 4) stride y u v s k)"
  by (simp add: row_pair_def pair_copies_def unpack_even_copies unpack_odd_copies run_copies_append)

lemma yuyv_to_yuv420p_valid:
  "stride = 4 * int n \<Longrightarrow> stride \<le> INT_MAX \<Longrightarrow> height \<le> INT_MAX - 1 \<Longrightarrow>
   yuyv_to_yuv420p m y u v s stride height =
   run_copies m (valid_frame_copies (pairs height) n y u v s)"
proof -
  assume s: "stride = 4 * int n" and "stride \<le> INT_MAX" and h: "height \<le> INT_MAX - 1"
  then have "stride \<le> INT_MAX - 3" by (intro valid_stride_no_overflow) simp_all
  from yuyv_to_yuv420p_copies [OF this h, of m y u v s] show ?thesis by (simp add: s)
qed

lemma even_height_pairs:
  "0 < height \<Longrightarrow> even height \<Longrightarrow> P = nat (height div 2) \<Longrightarrow>
   pairs height = P \<and> 0 < P \<and> height = 2 * int P"
  unfolding pairs_def by (elim evenE) auto

lemma even_height_no_overflow: "even height \<Longrightarrow> height \<le> INT_MAX \<Longrightarrow> height \<le> INT_MAX - 1"
  unfolding INT_MAX_def by presburger

lemma frame_result:
  assumes ap: "planes_apart (2 * P) P n y u v s" and fit: "planes_fit m (2 * P) P n y u v s"
  shows "\<exists>m'. run_copies m (valid_frame_copies P n y u v s) = Inr m' \<and>
        (\<forall>b. length (m' b) = length (m b)) \<and>
        (\<forall>r<2 * P. \<forall>j<2 * n. peek m' (ptr_add y (int (r * (2 * n) + j))) =
                                peek m (ptr_add s (int (r * (4 * n) + 2 * j)))) \<and>
        (\<forall>p<P. \<forall>g<n. peek m' (ptr_add u (int (p * n + g))) =
                         peek m (ptr_add s (int (2 * p * (4 * n) + 4 * g + 1))) \<and>
                       peek m' (ptr_add v (int (p * n + g))) =
                         peek m (ptr_add s (int (2 * p * (4 * n) + 4 * g + 3)))) \<and>
        (\<forall>a. 0 \<le> snd a \<and> \<not> in_span a y (2 * P * (2 * n)) \<and> \<not> in_span a u (P * n) \<and>
             \<not> in_span a v (P * n) \<longrightarrow> peek m' a = peek m a)"
proof -
  let ?cs = "valid_frame_copies P n y u v s"
  have set: "set ?cs = plane_copies (2 * P) P n y u v s" by (rule set_valid_frame_copies)
  have RP: "2 * P \<le> 2 * P + 1" by simp
  from plane_copies_succeed [OF _ fit RP, of ?cs] set
  obtain m' where run: "run_copies m ?cs = Inr m'" by auto
  have len: "\<forall>b. length (m' b) = length (m b)"
    using run_copies_length [OF run] by simp
  have rest: "peek m' a = peek m a"
    if "0 \<le> snd a" "\<not> in_span a y (2 * P * (2 * n))" "\<not> in_span a u (P * n)"
      "\<not> in_span a v (P * n)" for a
    using plane_copies_untouched [OF run _ that(1), of "2 * P" P n y u v s] set that(2-4) by simp
  from run len plane_copies_luma [OF run set ap RP] plane_copies_chroma [OF run set ap RP] rest
  show ?thesis by blast
qed


subsection \<open>What a returning call has done\<close>

lemma modifies_only_refl: "modifies_only B m m"
  by (simp add: modifies_only_def)

lemma modifies_only_trans:
  "modifies_only A m m1 \<Longrightarrow> modifies_only B m1 m2 \<Longrightarrow> A \<subseteq> C \<Longrightarrow> B \<subseteq> C \<Longrightarrow>
   modifies_only C m m2"
  unfolding modifies_only_def by (metis subsetD)

lemma modifies_only_mono: "modifies_only A m m' \<Longrightarrow> A \<subseteq> C \<Longrightarrow> modifies_only C m m'"
  unfolding modifies_only_def by blast

lemma copy_byte_modifies: "copy_byte m d s = Inr m' \<Longrightarrow> modifies_only {fst d} m m'"
  by (auto simp: copy_byte_eq_Inr modifies_only_def)

lemma run_copies_modifies:
  "run_copies m cs = Inr m' \<Longrightarrow> modifies_only (fst ` fst ` set cs) m m'"
proof (induction cs arbitrary: m)
  case Nil
  then show ?case by (simp add: modifies_only_refl)
next
  case (Cons c cs)
  then obtain m1 where 1: "copy_byte m (fst c) (snd c) = Inr m1" and 2: "run_copies m1 cs = Inr m'"
    by (auto simp: fbind_eq_Inr)
  show ?case
    by (rule modifies_only_trans [OF copy_byte_modifies [OF 1] Cons.IH [OF 2]]) auto
qed

lemma even_copies_object:
  "c \<in> set (even_copies n y u v s) \<Longrightarrow> fst (fst c) \<in> {fst y, fst u, fst v}"
  unfolding in_even_copies by (elim exE conjE disjE) simp_all

lemma odd_copies_object: "c \<in> set (odd_copies n y s) \<Longrightarrow> fst (fst c) = fst y"
  unfolding in_odd_copies by (elim exE conjE disjE) simp_all

lemma frame_copies_objects:
  "fst ` fst ` set (frame_copies P n dy dc ds y u v s) \<subseteq> {fst y, fst u, fst v}"
proof -
  have "fst (fst c) \<in> {fst y, fst u, fst v}"
    if "c \<in> set (frame_copies P n dy dc ds y u v s)" for c
  proof -
    from that obtain p where "c \<in> set (pair_copies n dy dc ds y u v s p)"
      unfolding in_frame_copies by blast
    then consider
      (E) "c \<in> set (even_copies n (ptr_add y (2 * int p * dy)) (ptr_add u (int p * dc))
             (ptr_add v (int p * dc)) (ptr_add s (2 * int p * ds)))"
      | (O) "c \<in> set (odd_copies n (ptr_add y ((2 * int p + 1) * dy))
             (ptr_add s ((2 * int p + 1) * ds)))"
      unfolding pair_copies_def set_append Un_iff by blast
    then show ?thesis
    proof cases
      case E
      from even_copies_object [OF E] show ?thesis by simp
    next
      case O
      from odd_copies_object [OF O] show ?thesis by simp
    qed
  qed
  then show ?thesis unfolding image_image by (intro image_subsetI)
qed

lemma unpack_even_from_returns:
  "unpack_even_from i m y u v s stride = Inr m' \<Longrightarrow>
   run_copies m (even_copies (nat ((stride - i + 3) div 4)) y u v s) = Inr m'"
proof (induction i m y u v s stride rule: unpack_even_from.induct)
  case (1 i m y u v s stride)
  show ?case
  proof (cases "i < stride")
    case False
    with "1.prems" show ?thesis
      by (subst (asm) unpack_even_from.simps) (simp add: groups_done even_copies_def)
  next
    case True
    from "1.prems" True obtain m1 where g: "unpack_even_group m y u v s = Inr m1"
      and no: "\<not> i + 4 > INT_MAX"
      and r: "unpack_even_from (i + 4) m1 (ptr_add y 2) (ptr_add u 1) (ptr_add v 1) (ptr_add s 4) stride = Inr m'"
      by (subst (asm) unpack_even_from.simps) (auto simp: fbind_eq_Inr split: if_splits)
    from "1.IH" [OF True no r] g show ?thesis
      by (simp add: groups_step [OF True] even_copies_Suc run_copies_append
            unpack_even_group_copies)
  qed
qed

lemma unpack_odd_from_returns:
  "unpack_odd_from i m y s stride = Inr m' \<Longrightarrow>
   run_copies m (odd_copies (nat ((stride - i + 3) div 4)) y s) = Inr m'"
proof (induction i m y s stride rule: unpack_odd_from.induct)
  case (1 i m y s stride)
  show ?case
  proof (cases "i < stride")
    case False
    with "1.prems" show ?thesis
      by (subst (asm) unpack_odd_from.simps) (simp add: groups_done odd_copies_def)
  next
    case True
    from "1.prems" True obtain m1 where g: "unpack_odd_group m y s = Inr m1"
      and no: "\<not> i + 4 > INT_MAX"
      and r: "unpack_odd_from (i + 4) m1 (ptr_add y 2) (ptr_add s 4) stride = Inr m'"
      by (subst (asm) unpack_odd_from.simps) (auto simp: fbind_eq_Inr split: if_splits)
    from "1.IH" [OF True no r] g show ?thesis
      by (simp add: groups_step [OF True] odd_copies_Suc run_copies_append
            unpack_odd_group_copies)
  qed
qed

lemma yuyv_to_yuv420p_from_returns:
  "yuyv_to_yuv420p_from row m y u v s stride height = Inr m' \<Longrightarrow>
   run_copies m (frame_copies (nat ((height - row + 1) div 2)) (groups stride)
     (stride sdiv 2) (stride sdiv 4) stride y u v s) = Inr m'"
proof (induction row m y u v s stride height rule: yuyv_to_yuv420p_from.induct)
  case (1 row m y u v s stride height)
  show ?case
  proof (cases "row < height")
    case False
    with "1.prems" show ?thesis
      by (subst (asm) yuyv_to_yuv420p_from.simps) (simp add: pairs_done frame_copies_def)
  next
    case True
    from "1.prems" True obtain m1 m2 where e: "unpack_even m y u v s stride = Inr m1"
      and o: "unpack_odd m1 (ptr_add y (stride sdiv 2)) (ptr_add s stride) stride = Inr m2"
      and no: "\<not> row + 2 > INT_MAX"
      and r: "yuyv_to_yuv420p_from (row + 2) m2
        (ptr_add (ptr_add y (stride sdiv 2)) (stride sdiv 2)) (ptr_add u (stride sdiv 4))
        (ptr_add v (stride sdiv 4)) (ptr_add (ptr_add s stride) stride) stride height = Inr m'"
      by (subst (asm) yuyv_to_yuv420p_from.simps)
         (auto simp: fbind_eq_Inr Let_def split: if_splits)
    have e': "run_copies m (even_copies (groups stride) y u v s) = Inr m1"
      using unpack_even_from_returns [of 0 m y u v s stride m1] e
      by (simp add: unpack_even_def groups_def)
    have o': "run_copies m1 (odd_copies (groups stride) (ptr_add y (stride sdiv 2)) (ptr_add s stride)) = Inr m2"
      using unpack_odd_from_returns [of 0 m1 _ _ stride m2] o
      by (simp add: unpack_odd_def groups_def)
    from "1.IH" [OF True refl refl refl refl refl refl no r] e' o' show ?thesis
      by (simp add: pairs_step [OF True] frame_copies_Suc run_copies_append pair_copies_def)
  qed
qed

lemma yuyv_to_yuv420p_returns:
  "yuyv_to_yuv420p m y u v s stride height = Inr m' \<Longrightarrow>
   run_copies m (frame_copies (pairs height) (groups stride)
     (stride sdiv 2) (stride sdiv 4) stride y u v s) = Inr m'"
  using yuyv_to_yuv420p_from_returns [of 0 m y u v s stride height m']
  by (simp add: yuyv_to_yuv420p_def pairs_def)

lemma apart_not_in_span:
  "apart p n q k \<Longrightarrow> t < k \<Longrightarrow> \<not> in_span (ptr_add q (int t)) p n"
  by (auto simp: apart_def in_span_def)


subsection \<open>Frames of any positive stride and height\<close>

lemma fits_sub:
  "fits m p L \<Longrightarrow> 0 \<le> a \<Longrightarrow> a + int k \<le> int L \<Longrightarrow> fits m (ptr_add p a) k"
  by (auto simp: fits_def)






subsection \<open>The bytes a frame conversion leaves\<close>

text \<open>
  \<open>frame_result\<close> for the call itself, with every address written out: luma byte \<open>j\<close>
  of row \<open>r\<close> is at offset \<open>r * (stride / 2) + j\<close> from \<open>y\<close>, chroma byte \<open>g\<close> of row
  \<open>p\<close> at offset \<open>p * (stride / 4) + g\<close> from \<open>u\<close> and \<open>v\<close>, and byte \<open>t\<close> of source
  row \<open>r\<close> at offset \<open>r * stride + t\<close> from the source pointer.
\<close>

lemma frame_bytes:
  assumes s: "stride = 4 * int n" and le: "stride \<le> INT_MAX" and h: "height \<le> INT_MAX - 1"
    and P: "pairs height = P"
    and ap: "planes_apart (2 * P) P n y u v s" and fit: "planes_fit m (2 * P) P n y u v s"
  shows "\<exists>m'. yuyv_to_yuv420p m y u v s stride height = Inr m' \<and>
        (\<forall>b. length (m' b) = length (m b)) \<and>
        (\<forall>r<2 * P. \<forall>j<2 * n.
           peek m' (fst y, snd y + int r * (stride div 2) + int j) =
           peek m (fst s, snd s + int r * stride + 2 * int j)) \<and>
        (\<forall>p<P. \<forall>g<n.
           peek m' (fst u, snd u + int p * (stride div 4) + int g) =
             peek m (fst s, snd s + 2 * int p * stride + 4 * int g + 1) \<and>
           peek m' (fst v, snd v + int p * (stride div 4) + int g) =
             peek m (fst s, snd s + 2 * int p * stride + 4 * int g + 3)) \<and>
        (\<forall>a. 0 \<le> snd a \<and> \<not> in_span a y (2 * P * (2 * n)) \<and> \<not> in_span a u (P * n) \<and>
             \<not> in_span a v (P * n) \<longrightarrow> peek m' a = peek m a)"
proof -
  have Ly: "ptr_add y (int (r * (2 * n) + j)) = (fst y, snd y + int r * (stride div 2) + int j)"
    and Ls: "ptr_add s (int (r * (4 * n) + 2 * j)) = (fst s, snd s + int r * stride + 2 * int j)"
    for r j
    by (simp_all add: ptr_add_def s)
  have Cu: "ptr_add u (int (p * n + g)) = (fst u, snd u + int p * (stride div 4) + int g)"
    and Cv: "ptr_add v (int (p * n + g)) = (fst v, snd v + int p * (stride div 4) + int g)"
    and C1: "ptr_add s (int (2 * p * (4 * n) + 4 * g + 1)) =
             (fst s, snd s + 2 * int p * stride + 4 * int g + 1)"
    and C3: "ptr_add s (int (2 * p * (4 * n) + 4 * g + 3)) =
             (fst s, snd s + 2 * int p * stride + 4 * int g + 3)"
    for p g
    by (simp_all add: ptr_add_def s)
  show ?thesis
    using frame_result [OF ap fit]
    unfolding yuyv_to_yuv420p_valid [OF s le h] P Ly Ls Cu Cv C1 C3 .
qed

text \<open>
  Whatever the arguments, a call that returns changes the size of no object and modifies
  only the objects that the luma, U and V pointers point into; with a stride of \<open>4n\<close>
  bytes, only bytes of the luma, U and V buffers.
\<close>

lemma returning_call_modifies_only:
  assumes "yuyv_to_yuv420p m y u v yuyv stride height = Inr m'"
  shows "(\<forall>b. length (m' b) = length (m b)) \<and>
         (\<forall>b. b \<noteq> fst y \<and> b \<noteq> fst u \<and> b \<noteq> fst v \<longrightarrow> m' b = m b) \<and>
         (\<forall>n a. stride = 4 * int n \<and> 0 \<le> snd a \<and>
                \<not> in_span a y (2 * pairs height * (2 * n)) \<and>
                \<not> in_span a u (pairs height * n) \<and> \<not> in_span a v (pairs height * n) \<longrightarrow>
                peek m' a = peek m a) \<and>
         (\<forall>n t. stride = 4 * int n \<and> 0 \<le> snd yuyv \<and> t < 2 * pairs height * (4 * n) \<and>
                apart y (2 * pairs height * (2 * n)) yuyv (2 * pairs height * (4 * n)) \<and>
                apart u (pairs height * n) yuyv (2 * pairs height * (4 * n)) \<and>
                apart v (pairs height * n) yuyv (2 * pairs height * (4 * n)) \<longrightarrow>
                peek m' (ptr_add yuyv (int t)) = peek m (ptr_add yuyv (int t)))"
proof -
  let ?P = "pairs height"
  note run = yuyv_to_yuv420p_returns [OF assms]
  have mo: "modifies_only {fst y, fst u, fst v} m m'"
    by (rule modifies_only_mono [OF run_copies_modifies [OF run] frame_copies_objects])
  have rest: "peek m' a = peek m a"
    if "stride = 4 * int n" "0 \<le> snd a" "\<not> in_span a y (2 * ?P * (2 * n))"
      "\<not> in_span a u (?P * n)" "\<not> in_span a v (?P * n)" for n a
  proof -
    have "run_copies m (valid_frame_copies ?P n y u v yuyv) = Inr m'"
      using run by (simp add: that(1))
    from plane_copies_untouched [where s = yuyv, OF this _ that(2-5)] show ?thesis
      by (simp add: set_valid_frame_copies)
  qed
  have src: "peek m' (ptr_add yuyv (int t)) = peek m (ptr_add yuyv (int t))"
    if "stride = 4 * int n" "0 \<le> snd yuyv" "t < 2 * ?P * (4 * n)"
      "apart y (2 * ?P * (2 * n)) yuyv (2 * ?P * (4 * n))"
      "apart u (?P * n) yuyv (2 * ?P * (4 * n))"
      "apart v (?P * n) yuyv (2 * ?P * (4 * n))" for n t
    using rest [OF that(1), of "ptr_add yuyv (int t)"] that(2)
      apart_not_in_span [OF that(4) that(3)] apart_not_in_span [OF that(5) that(3)]
      apart_not_in_span [OF that(6) that(3)]
    by simp
  from mo rest src show ?thesis unfolding modifies_only_def by blast
qed


subsection \<open>The NEON unpackers as byte copies\<close>

lemma store_bytes_eq_Inr:
  "store_bytes m p xs = Inr m' \<longleftrightarrow>
   fits m p (length xs) \<and>
   m' = m(fst p := take (nat (snd p)) (m (fst p)) @ xs @
                   drop (nat (snd p) + length xs) (m (fst p)))"
  by (auto simp: store_bytes_def)

lemma store_bytes_length:
  "store_bytes m p xs = Inr m' \<Longrightarrow> length (m' b) = length (m b)"
  by (auto simp: store_bytes_eq_Inr fits_def)

lemma nth_splice:
  "off + length xs \<le> length old \<Longrightarrow> k < length old \<Longrightarrow>
   (take off old @ xs @ drop (off + length xs) old) ! k =
   (if off \<le> k \<and> k < off + length xs then xs ! (k - off) else old ! k)"
  by (auto simp: nth_append min_def)

lemma store_bytes_peek:
  assumes "store_bytes m p xs = Inr m'" and "valid m a"
  shows "peek m' a =
         (if in_span a p (length xs) then xs ! nat (snd a - snd p) else peek m a)"
proof (cases "xs = []")
  case True
  with assms have "m' = m" by (simp add: store_bytes_eq_Inr)
  then show ?thesis using True by (auto simp: in_span_def)
next
  case False
  with assms(1) have p: "0 \<le> snd p" "nat (snd p) + length xs \<le> length (m (fst p))"
    and m': "m' = m(fst p := take (nat (snd p)) (m (fst p)) @ xs @
                   drop (nat (snd p) + length xs) (m (fst p)))"
    by (auto simp: store_bytes_eq_Inr fits_def)
  from assms(2) have a: "0 \<le> snd a" "nat (snd a) < length (m (fst a))"
    by (auto simp: valid_def)
  show ?thesis
  proof (cases "fst a = fst p")
    case False
    then show ?thesis by (simp add: m' peek_def in_span_def)
  next
    case True
    have "nat (snd p) \<le> nat (snd a) \<and> nat (snd a) < nat (snd p) + length xs \<longleftrightarrow>
          snd p \<le> snd a \<and> snd a < snd p + int (length xs)"
      using p(1) a(1) by linarith
    moreover have "nat (snd a) - nat (snd p) = nat (snd a - snd p)"
      using p(1) a(1) by linarith
    ultimately show ?thesis
      using True a(2) by (simp add: m' peek_def in_span_def nth_splice [OF p(2)])
  qed
qed

lemma fits_cong_length:
  "(\<And>b. length (m' b) = length (m b)) \<Longrightarrow> fits m' p n = fits m p n"
  by (simp add: fits_def)

lemma vld2q_u8_eq:
  "fits m s 32 \<Longrightarrow>
   vld2q_u8 m s = Inr (block_luma m s, map (\<lambda>j. peek m (ptr_add s (2 * int j + 1))) [0..<16])"
  unfolding vld2q_u8_def load_bytes_def deinterleave_def block_luma_def
  by (simp add: add.commute del: upt_Suc cong: map_cong)

lemma vld2_u8_eq:
  "vld2_u8 (map (\<lambda>j. peek m (ptr_add s (2 * int j + 1))) [0..<16]) =
   (block_chroma 1 m s, block_chroma 3 m s)"
  unfolding vld2_u8_def deinterleave_def block_chroma_def
  by (simp add: algebra_simps del: upt_Suc cong: map_cong)

lemma mem_ext:
  assumes "\<And>b. length (m1 b) = length (m2 b)"
    and "\<And>a. valid m1 a \<Longrightarrow> peek m1 a = peek m2 a"
  shows "m1 = m2"
proof
  fix b
  show "m1 b = m2 b"
  proof (rule nth_equalityI)
    show "length (m1 b) = length (m2 b)" by (rule assms(1))
    fix k assume "k < length (m1 b)"
    then have "valid m1 (b, int k)" by (simp add: valid_def)
    from assms(2) [OF this] show "m1 b ! k = m2 b ! k" by (simp add: peek_def)
  qed
qed

lemma in_span_offset:
  "in_span a p n \<Longrightarrow> a = ptr_add p (int (nat (snd a - snd p))) \<and> nat (snd a - snd p) < n"
  by (cases a) (auto simp: in_span_def ptr_add_def)

lemma apart_disjoint: "apart p n q k \<Longrightarrow> in_span a p n \<Longrightarrow> \<not> in_span a q k"
  by (auto simp: apart_def in_span_def)

lemma even_row_peek:
  assumes run: "run_copies m (even_copies n y u v s) = Inr m'"
    and ap: "planes_apart 1 1 n y u v s" and a: "valid m a"
  shows "peek m' a =
    (if in_span a y (2 * n) then peek m (ptr_add s (2 * (snd a - snd y)))
     else if in_span a u n then peek m (ptr_add s (4 * (snd a - snd u) + 1))
     else if in_span a v n then peek m (ptr_add s (4 * (snd a - snd v) + 3))
     else peek m a)"
proof -
  have set: "set (even_copies n y u v s) = plane_copies 1 1 n y u v s" by (rule set_even_copies)
  have RP: "2 * 1 \<le> 1 + (1::nat)" and z: "(0::nat) < 1" by simp_all
  have a0: "0 \<le> snd a" using a by (simp add: valid_def)
  consider (Y) "in_span a y (2 * n)"
    | (U) "\<not> in_span a y (2 * n)" "in_span a u n"
    | (V) "\<not> in_span a y (2 * n)" "\<not> in_span a u n" "in_span a v n"
    | (N) "\<not> in_span a y (2 * n)" "\<not> in_span a u n" "\<not> in_span a v n"
    by blast
  then show ?thesis
  proof cases
    case Y
    define j where "j = nat (snd a - snd y)"
    from in_span_offset [OF Y] have j: "a = ptr_add y (int j)" "j < 2 * n"
      by (simp_all add: j_def)
    have "2 * (snd a - snd y) = 2 * int j" using Y by (simp add: j_def in_span_def)
    with plane_copies_luma [OF run set ap RP z j(2)] j(1) Y show ?thesis by simp
  next
    case U
    define g where "g = nat (snd a - snd u)"
    from in_span_offset [OF U(2)] have g: "a = ptr_add u (int g)" "g < n"
      by (simp_all add: g_def)
    have "4 * (snd a - snd u) + 1 = 4 * int g + 1" using U(2) by (simp add: g_def in_span_def)
    with plane_copies_chroma(1) [OF run set ap RP z g(2)] g(1) U show ?thesis
      by (simp add: add.commute)
  next
    case V
    define g where "g = nat (snd a - snd v)"
    from in_span_offset [OF V(3)] have g: "a = ptr_add v (int g)" "g < n"
      by (simp_all add: g_def)
    have "4 * (snd a - snd v) + 3 = 4 * int g + 3" using V(3) by (simp add: g_def in_span_def)
    with plane_copies_chroma(2) [OF run set ap RP z g(2)] g(1) V show ?thesis by simp
  next
    case N
    have "peek m' a = peek m a"
      using plane_copies_untouched [where s = s, OF run _ a0, of 1 1 n y u v] set N by simp
    with N show ?thesis by simp
  qed
qed

lemma block_luma_nth: "j < 16 \<Longrightarrow> block_luma m s ! j = peek m (ptr_add s (2 * int j))"
  unfolding block_luma_def by (simp del: upt_Suc)

lemma block_chroma_nth: "g < 8 \<Longrightarrow> block_chroma k m s ! g = peek m (ptr_add s (4 * int g + int k))"
  unfolding block_chroma_def by (simp del: upt_Suc)

lemma length_block [simp]: "length (block_luma m s) = 16" "length (block_chroma k m s) = 8"
  by (simp_all add: block_luma_def block_chroma_def)

lemma store_bytes_succeeds: "fits m p (length xs) \<Longrightarrow> \<exists>m'. store_bytes m p xs = Inr m'"
  by (simp add: store_bytes_def)

lemma neon_even_block:
  assumes ap: "planes_apart 1 1 8 y u v s" and fit: "planes_fit m 1 1 8 y u v s"
  shows "unpack_even_neon_block m y u v s = run_copies m (even_copies 8 y u v s)"
proof -
  from fit have fy: "fits m y 16" and fu: "fits m u 8" and fv: "fits m v 8" and fs: "fits m s 32"
    by (simp_all add: planes_fit_def)
  from ap have yu: "apart y 16 u 8" and yv: "apart y 16 v 8" and uv: "apart u 8 v 8"
    by (simp_all add: planes_apart_def)
  from store_bytes_succeeds [of m y "block_luma m s"] fy
  obtain m1 where 1: "store_bytes m y (block_luma m s) = Inr m1" by auto
  have l1: "\<And>b. length (m1 b) = length (m b)" by (rule store_bytes_length [OF 1])
  from store_bytes_succeeds [of m1 u "block_chroma 1 m s"] fu
  obtain m2 where 2: "store_bytes m1 u (block_chroma 1 m s) = Inr m2"
    by (auto simp: fits_cong_length [OF l1])
  have l2: "\<And>b. length (m2 b) = length (m b)" using store_bytes_length [OF 2] l1 by simp
  from store_bytes_succeeds [of m2 v "block_chroma 3 m s"] fv
  obtain m3 where 3: "store_bytes m2 v (block_chroma 3 m s) = Inr m3"
    by (auto simp: fits_cong_length [OF l2])
  have l3: "\<And>b. length (m3 b) = length (m b)" using store_bytes_length [OF 3] l2 by simp
  have s2: "store_bytes m1 u (block_chroma (Suc 0) m s) = Inr m2" using 2 by simp
  have neon: "unpack_even_neon_block m y u v s = Inr m3"
    by (simp add: unpack_even_neon_block_def vld2q_u8_eq [OF fs] vld2_u8_eq vst1q_u8_def
          vst1_u8_def 1 s2 3 Let_def)
  from plane_copies_succeed [OF _ fit, of "even_copies 8 y u v s"]
  obtain m' where run: "run_copies m (even_copies 8 y u v s) = Inr m'"
    by (auto simp: set_even_copies)
  have "m3 = m'"
  proof (rule mem_ext)
    fix b show "length (m3 b) = length (m' b)"
      using l3 run_copies_length [OF run] by simp
  next
    fix a assume "valid m3 a"
    then have a: "valid m a" and a1: "valid m1 a" and a2: "valid m2 a"
      using l1 l2 l3 by (simp_all add: valid_def)
    have p3: "peek m3 a = (if in_span a v 8 then block_chroma 3 m s ! nat (snd a - snd v)
                          else peek m2 a)"
      using store_bytes_peek [OF 3 a2] by simp
    have p2: "peek m2 a = (if in_span a u 8 then block_chroma 1 m s ! nat (snd a - snd u)
                          else peek m1 a)"
      using store_bytes_peek [OF 2 a1] by simp
    have p1: "peek m1 a = (if in_span a y 16 then block_luma m s ! nat (snd a - snd y)
                          else peek m a)"
      using store_bytes_peek [OF 1 a] by simp
    have sc: "peek m' a =
      (if in_span a y 16 then peek m (ptr_add s (2 * (snd a - snd y)))
       else if in_span a u 8 then peek m (ptr_add s (4 * (snd a - snd u) + 1))
       else if in_span a v 8 then peek m (ptr_add s (4 * (snd a - snd v) + 3))
       else peek m a)"
      using even_row_peek [OF run ap a] by simp
    consider (Y) "in_span a y 16" | (U) "\<not> in_span a y 16" "in_span a u 8"
      | (V) "\<not> in_span a y 16" "\<not> in_span a u 8" "in_span a v 8"
      | (N) "\<not> in_span a y 16" "\<not> in_span a u 8" "\<not> in_span a v 8"
      by blast
    then show "peek m3 a = peek m' a"
    proof cases
      case Y
      from apart_disjoint [OF yu Y] apart_disjoint [OF yv Y]
      have "\<not> in_span a u 8" "\<not> in_span a v 8" .
      moreover from in_span_offset [OF Y] have "nat (snd a - snd y) < 16" by simp
      moreover have "2 * int (nat (snd a - snd y)) = 2 * (snd a - snd y)"
        using Y by (simp add: in_span_def)
      ultimately show ?thesis using Y by (simp add: p3 p2 p1 sc block_luma_nth)
    next
      case U
      from apart_disjoint [OF uv U(2)] have "\<not> in_span a v 8" .
      moreover from in_span_offset [OF U(2)] have "nat (snd a - snd u) < 8" by simp
      moreover have "4 * int (nat (snd a - snd u)) = 4 * (snd a - snd u)"
        using U(2) by (simp add: in_span_def)
      ultimately show ?thesis using U by (simp add: p3 p2 p1 sc block_chroma_nth)
    next
      case V
      from in_span_offset [OF V(3)] have "nat (snd a - snd v) < 8" by simp
      moreover have "4 * int (nat (snd a - snd v)) = 4 * (snd a - snd v)"
        using V(3) by (simp add: in_span_def)
      ultimately show ?thesis using V by (simp add: p3 p2 p1 sc block_chroma_nth)
    next
      case N
      then show ?thesis by (simp add: p3 p2 p1 sc)
    qed
  qed
  with neon run show ?thesis by simp
qed

lemma odd_row_peek:
  assumes run: "run_copies m (odd_copies n y s) = Inr m'"
    and ap: "apart y (2 * n) s (4 * n)" and a: "valid m a"
  shows "peek m' a =
    (if in_span a y (2 * n) then peek m (ptr_add s (2 * (snd a - snd y))) else peek m a)"
proof -
  have set: "set (odd_copies n y s) = plane_copies 1 0 n y y y s" by (rule set_odd_copies)
  have RP: "2 * 0 \<le> 1 + (1::nat)" and z: "(0::nat) < 1" by simp_all
  have ap': "planes_apart 1 0 n y y y s" using ap unfolding planes_apart_odd .
  have a0: "0 \<le> snd a" using a by (simp add: valid_def)
  show ?thesis
  proof (cases "in_span a y (2 * n)")
    case True
    define j where "j = nat (snd a - snd y)"
    from in_span_offset [OF True] have j: "a = ptr_add y (int j)" "j < 2 * n"
      by (simp_all add: j_def)
    have "2 * (snd a - snd y) = 2 * int j" using True by (simp add: j_def in_span_def)
    with plane_copies_luma [OF run set ap' RP z j(2)] j(1) True show ?thesis by simp
  next
    case False
    have "\<not> in_span a y (0 * n)" by (simp add: in_span_def)
    with plane_copies_untouched [where s = s, OF run _ a0, of 1 0 n y y y] set False
    show ?thesis by simp
  qed
qed

lemma neon_odd_block:
  assumes ap: "apart y 16 s 32" and fy: "fits m y 16" and fs: "fits m s 32"
  shows "unpack_odd_neon_block m y s = run_copies m (odd_copies 8 y s)"
proof -
  from store_bytes_succeeds [of m y "block_luma m s"] fy
  obtain m1 where 1: "store_bytes m y (block_luma m s) = Inr m1" by auto
  have l1: "\<And>b. length (m1 b) = length (m b)" by (rule store_bytes_length [OF 1])
  have neon: "unpack_odd_neon_block m y s = Inr m1"
    by (simp add: unpack_odd_neon_block_def vld2q_u8_eq [OF fs] vst1q_u8_def 1)
  have fit: "planes_fit m 1 0 8 y y y s" unfolding planes_fit_odd using fy fs by simp
  from plane_copies_succeed [OF _ fit, of "odd_copies 8 y s"]
  obtain m' where run: "run_copies m (odd_copies 8 y s) = Inr m'"
    by (auto simp: set_odd_copies [where u = y and v = y])
  have ap': "apart y (2 * 8) s (4 * 8)" using ap by simp
  have "m1 = m'"
  proof (rule mem_ext)
    fix b show "length (m1 b) = length (m' b)"
      using l1 run_copies_length [OF run] by simp
  next
    fix a assume "valid m1 a"
    then have a: "valid m a" using l1 by (simp add: valid_def)
    have p1: "peek m1 a = (if in_span a y 16 then block_luma m s ! nat (snd a - snd y)
                          else peek m a)"
      using store_bytes_peek [OF 1 a] by simp
    have sc: "peek m' a =
      (if in_span a y 16 then peek m (ptr_add s (2 * (snd a - snd y))) else peek m a)"
      using odd_row_peek [OF run ap' a] by simp
    show "peek m1 a = peek m' a"
    proof (cases "in_span a y 16")
      case True
      from in_span_offset [OF True] have "nat (snd a - snd y) < 16" by simp
      moreover have "2 * int (nat (snd a - snd y)) = 2 * (snd a - snd y)"
        using True by (simp add: in_span_def)
      ultimately show ?thesis using True by (simp add: p1 sc block_luma_nth)
    next
      case False
      then show ?thesis by (simp add: p1 sc)
    qed
  qed
  with neon run show ?thesis by simp
qed

lemma fbind_cong_Inr: "(\<And>x. r = Inr x \<Longrightarrow> f x = g x) \<Longrightarrow> fbind r f = fbind r g"
  by (cases r) simp_all

lemma apart_sub:
  "apart p n q k \<Longrightarrow> 0 \<le> a \<Longrightarrow> a + int n' \<le> int n \<Longrightarrow> 0 \<le> b \<Longrightarrow> b + int k' \<le> int k \<Longrightarrow>
   apart (ptr_add p a) n' (ptr_add q b) k'"
  unfolding apart_def by (cases "n' = 0"; cases "k' = 0"; cases "fst p = fst q") auto

lemma rows_inside: "r0 + R' \<le> R \<Longrightarrow> int (r0 * k) + int (R' * k) \<le> int (R * (k::nat))"
proof -
  assume "r0 + R' \<le> R"
  then have "(r0 + R') * k \<le> R * k" by (rule mult_le_mono1)
  then have "r0 * k + R' * k \<le> R * k" by (simp only: add_mult_distrib)
  then show ?thesis by (simp only: flip: of_nat_add)
qed

lemma planes_apart_sub:
  assumes "planes_apart R P n y u v s" and r: "r0 + R' \<le> R" and p: "p0 + P' \<le> P"
  shows "planes_apart R' P' n (ptr_add y (int (r0 * (2 * n)))) (ptr_add u (int (p0 * n)))
           (ptr_add v (int (p0 * n))) (ptr_add s (int (r0 * (4 * n))))"
proof -
  note ry = rows_inside [OF r, of "2 * n"] and rs = rows_inside [OF r, of "4 * n"]
    and pc = rows_inside [OF p, of n]
  from assms(1) have ys: "apart y (R * (2 * n)) s (R * (4 * n))"
    and us: "apart u (P * n) s (R * (4 * n))" and vs: "apart v (P * n) s (R * (4 * n))"
    and yu: "apart y (R * (2 * n)) u (P * n)" and yv: "apart y (R * (2 * n)) v (P * n)"
    and uv: "apart u (P * n) v (P * n)"
    unfolding planes_apart_def by blast+
  show ?thesis
    unfolding planes_apart_def
    using apart_sub [OF ys of_nat_0_le_iff ry of_nat_0_le_iff rs]
      apart_sub [OF us of_nat_0_le_iff pc of_nat_0_le_iff rs]
      apart_sub [OF vs of_nat_0_le_iff pc of_nat_0_le_iff rs]
      apart_sub [OF yu of_nat_0_le_iff ry of_nat_0_le_iff pc]
      apart_sub [OF yv of_nat_0_le_iff ry of_nat_0_le_iff pc]
      apart_sub [OF uv of_nat_0_le_iff pc of_nat_0_le_iff pc]
    by blast
qed

lemma planes_fit_sub:
  assumes "planes_fit m R P n y u v s" and r: "r0 + R' \<le> R" and p: "p0 + P' \<le> P"
  shows "planes_fit m R' P' n (ptr_add y (int (r0 * (2 * n)))) (ptr_add u (int (p0 * n)))
           (ptr_add v (int (p0 * n))) (ptr_add s (int (r0 * (4 * n))))"
proof -
  note ry = rows_inside [OF r, of "2 * n"] and rs = rows_inside [OF r, of "4 * n"]
    and pc = rows_inside [OF p, of n]
  from assms(1) have fy: "fits m y (R * (2 * n))" and fu: "fits m u (P * n)"
    and fv: "fits m v (P * n)" and fs: "fits m s (R * (4 * n))"
    unfolding planes_fit_def by blast+
  show ?thesis
    unfolding planes_fit_def
    using fits_sub [OF fy of_nat_0_le_iff ry] fits_sub [OF fu of_nat_0_le_iff pc]
      fits_sub [OF fv of_nat_0_le_iff pc] fits_sub [OF fs of_nat_0_le_iff rs]
    by blast
qed

lemma planes_fit_cong_length:
  "(\<And>b. length (m' b) = length (m b)) \<Longrightarrow>
   planes_fit m' R P n y u v s = planes_fit m R P n y u v s"
  by (simp add: planes_fit_def fits_def)

lemma even_copies_add:
  "even_copies (a + b) y u v s =
   even_copies a y u v s @
   even_copies b (ptr_add y (2 * int a)) (ptr_add u (int a)) (ptr_add v (int a))
     (ptr_add s (4 * int a))"
proof (induction a arbitrary: y u v s)
  case 0
  show ?case by (simp add: even_copies_def)
next
  case (Suc a)
  have "even_copies (Suc a + b) y u v s = even_copies (Suc (a + b)) y u v s" by simp
  also have "\<dots> = even_group_copies y u v s 0 @
      even_copies (a + b) (ptr_add y 2) (ptr_add u 1) (ptr_add v 1) (ptr_add s 4)"
    by (rule even_copies_Suc)
  finally show ?case
    by (simp add: Suc.IH even_copies_Suc algebra_simps)
qed

lemma odd_copies_add:
  "odd_copies (a + b) y s =
   odd_copies a y s @ odd_copies b (ptr_add y (2 * int a)) (ptr_add s (4 * int a))"
proof (induction a arbitrary: y s)
  case 0
  show ?case by (simp add: odd_copies_def)
next
  case (Suc a)
  have "odd_copies (Suc a + b) y s = odd_copies (Suc (a + b)) y s" by simp
  also have "\<dots> = odd_group_copies y s 0 @ odd_copies (a + b) (ptr_add y 2) (ptr_add s 4)"
    by (rule odd_copies_Suc)
  finally show ?case
    by (simp add: Suc.IH odd_copies_Suc algebra_simps)
qed

lemma planes_apart_groups:
  assumes "planes_apart 1 1 n y u v s" and g: "g0 + n' \<le> n"
  shows "planes_apart 1 1 n' (ptr_add y (2 * int g0)) (ptr_add u (int g0))
           (ptr_add v (int g0)) (ptr_add s (4 * int g0))"
proof -
  have gy: "2 * int g0 + int (1 * (2 * n')) \<le> int (1 * (2 * n))"
    and gc: "int g0 + int (1 * n') \<le> int (1 * n)"
    and gs: "4 * int g0 + int (1 * (4 * n')) \<le> int (1 * (4 * n))"
    and z: "0 \<le> 2 * int g0" "0 \<le> int g0" "0 \<le> 4 * int g0"
    using g by simp_all
  from assms(1) have ys: "apart y (1 * (2 * n)) s (1 * (4 * n))"
    and us: "apart u (1 * n) s (1 * (4 * n))" and vs: "apart v (1 * n) s (1 * (4 * n))"
    and yu: "apart y (1 * (2 * n)) u (1 * n)" and yv: "apart y (1 * (2 * n)) v (1 * n)"
    and uv: "apart u (1 * n) v (1 * n)"
    unfolding planes_apart_def by blast+
  show ?thesis
    unfolding planes_apart_def
    using apart_sub [OF ys z(1) gy z(3) gs] apart_sub [OF us z(2) gc z(3) gs]
      apart_sub [OF vs z(2) gc z(3) gs] apart_sub [OF yu z(1) gy z(2) gc]
      apart_sub [OF yv z(1) gy z(2) gc] apart_sub [OF uv z(2) gc z(2) gc]
    by blast
qed

lemma planes_fit_groups:
  assumes "planes_fit m 1 1 n y u v s" and g: "g0 + n' \<le> n"
  shows "planes_fit m 1 1 n' (ptr_add y (2 * int g0)) (ptr_add u (int g0))
           (ptr_add v (int g0)) (ptr_add s (4 * int g0))"
proof -
  have gy: "2 * int g0 + int (1 * (2 * n')) \<le> int (1 * (2 * n))"
    and gc: "int g0 + int (1 * n') \<le> int (1 * n)"
    and gs: "4 * int g0 + int (1 * (4 * n')) \<le> int (1 * (4 * n))"
    and z: "0 \<le> 2 * int g0" "0 \<le> int g0" "0 \<le> 4 * int g0"
    using g by simp_all
  from assms(1) have fy: "fits m y (1 * (2 * n))" and fu: "fits m u (1 * n)"
    and fv: "fits m v (1 * n)" and fs: "fits m s (1 * (4 * n))"
    unfolding planes_fit_def by blast+
  show ?thesis
    unfolding planes_fit_def
    using fits_sub [OF fy z(1) gy] fits_sub [OF fu z(2) gc] fits_sub [OF fv z(2) gc]
      fits_sub [OF fs z(3) gs]
    by blast
qed

lemma unpack_even_neon_from_copies:
  assumes no: "stride \<le> INT_MAX - 31"
  shows "nb = nat ((stride - i + 31) div 32) \<Longrightarrow>
    planes_apart 1 1 (8 * nb) y u v s \<Longrightarrow> planes_fit m 1 1 (8 * nb) y u v s \<Longrightarrow>
    unpack_even_neon_from i m y u v s stride = run_copies m (even_copies (8 * nb) y u v s)"
proof (induction nb arbitrary: i m y u v s)
  case 0
  then have "\<not> i < stride" by linarith
  then show ?case
    by (subst unpack_even_neon_from.simps) (simp add: even_copies_def)
next
  case (Suc nb)
  then have lt: "i < stride" by linarith
  with no have ov: "\<not> i + 32 > INT_MAX" by simp
  have nb: "nb = nat ((stride - (i + 32) + 31) div 32)" using Suc.prems(1) by linarith
  have ap0: "planes_apart 1 1 8 y u v s"
    using planes_apart_groups [OF Suc.prems(2), of 0 8] by simp
  have fit0: "planes_fit m 1 1 8 y u v s"
    using planes_fit_groups [OF Suc.prems(3), of 0 8] by simp
  have ap1: "planes_apart 1 1 (8 * nb) (ptr_add y 16) (ptr_add u 8) (ptr_add v 8) (ptr_add s 32)"
    using planes_apart_groups [OF Suc.prems(2), of 8 "8 * nb"] by simp
  have fit1: "planes_fit m 1 1 (8 * nb) (ptr_add y 16) (ptr_add u 8) (ptr_add v 8) (ptr_add s 32)"
    using planes_fit_groups [OF Suc.prems(3), of 8 "8 * nb"] by simp
  have rest: "unpack_even_neon_from (i + 32) m1 (ptr_add y 16) (ptr_add u 8) (ptr_add v 8)
                (ptr_add s 32) stride =
              run_copies m1 (even_copies (8 * nb) (ptr_add y 16) (ptr_add u 8) (ptr_add v 8)
                (ptr_add s 32))"
    if "run_copies m (even_copies 8 y u v s) = Inr m1" for m1
  proof -
    have "planes_fit m1 1 1 (8 * nb) (ptr_add y 16) (ptr_add u 8) (ptr_add v 8) (ptr_add s 32)"
      using fit1 planes_fit_cong_length [OF run_copies_length [OF that]] by simp
    from Suc.IH [OF nb ap1 this] show ?thesis .
  qed
  have split: "even_copies (8 * Suc nb) y u v s =
      even_copies 8 y u v s @
      even_copies (8 * nb) (ptr_add y 16) (ptr_add u 8) (ptr_add v 8) (ptr_add s 32)"
    using even_copies_add [of 8 "8 * nb" y u v s] by simp
  have "unpack_even_neon_from i m y u v s stride =
        fbind (run_copies m (even_copies 8 y u v s)) (\<lambda>m1.
          unpack_even_neon_from (i + 32) m1 (ptr_add y 16) (ptr_add u 8) (ptr_add v 8)
            (ptr_add s 32) stride)"
    by (subst unpack_even_neon_from.simps) (simp add: lt ov neon_even_block [OF ap0 fit0])
  also have "\<dots> = fbind (run_copies m (even_copies 8 y u v s)) (\<lambda>m1.
          run_copies m1 (even_copies (8 * nb) (ptr_add y 16) (ptr_add u 8) (ptr_add v 8)
            (ptr_add s 32)))"
    by (rule fbind_cong_Inr) (rule rest)
  also have "\<dots> = run_copies m (even_copies (8 * Suc nb) y u v s)"
    unfolding split run_copies_append ..
  finally show ?case .
qed

lemma unpack_odd_neon_from_copies:
  assumes no: "stride \<le> INT_MAX - 31"
  shows "nb = nat ((stride - i + 31) div 32) \<Longrightarrow>
    apart y (2 * (8 * nb)) s (4 * (8 * nb)) \<Longrightarrow>
    fits m y (2 * (8 * nb)) \<Longrightarrow> fits m s (4 * (8 * nb)) \<Longrightarrow>
    unpack_odd_neon_from i m y s stride = run_copies m (odd_copies (8 * nb) y s)"
proof (induction nb arbitrary: i m y s)
  case 0
  then have "\<not> i < stride" by linarith
  then show ?case
    by (subst unpack_odd_neon_from.simps) (simp add: odd_copies_def)
next
  case (Suc nb)
  then have lt: "i < stride" by linarith
  with no have ov: "\<not> i + 32 > INT_MAX" by simp
  have nb: "nb = nat ((stride - (i + 32) + 31) div 32)" using Suc.prems(1) by linarith
  have z: "(0::int) \<le> 0" "(0::int) \<le> 16" "(0::int) \<le> 32" by simp_all
  have ap0: "apart y 16 s 32"
    using apart_sub [OF Suc.prems(2) z(1) _ z(1), of 16 32] by simp
  have fy0: "fits m y 16" using fits_sub [OF Suc.prems(3) z(1), of 16] by simp
  have fs0: "fits m s 32" using fits_sub [OF Suc.prems(4) z(1), of 32] by simp
  have ap1: "apart (ptr_add y 16) (2 * (8 * nb)) (ptr_add s 32) (4 * (8 * nb))"
    by (rule apart_sub [OF Suc.prems(2) z(2) _ z(3)]) simp_all
  have fy1: "fits m (ptr_add y 16) (2 * (8 * nb))"
    by (rule fits_sub [OF Suc.prems(3) z(2)]) simp
  have fs1: "fits m (ptr_add s 32) (4 * (8 * nb))"
    by (rule fits_sub [OF Suc.prems(4) z(3)]) simp
  have rest: "unpack_odd_neon_from (i + 32) m1 (ptr_add y 16) (ptr_add s 32) stride =
              run_copies m1 (odd_copies (8 * nb) (ptr_add y 16) (ptr_add s 32))"
    if "run_copies m (odd_copies 8 y s) = Inr m1" for m1
  proof -
    note l = run_copies_length [OF that]
    have "fits m1 (ptr_add y 16) (2 * (8 * nb))" "fits m1 (ptr_add s 32) (4 * (8 * nb))"
      using fy1 fs1 by (simp_all add: fits_cong_length [OF l])
    from Suc.IH [OF nb ap1 this] show ?thesis .
  qed
  have split: "odd_copies (8 * Suc nb) y s =
      odd_copies 8 y s @ odd_copies (8 * nb) (ptr_add y 16) (ptr_add s 32)"
    using odd_copies_add [of 8 "8 * nb" y s] by simp
  have "unpack_odd_neon_from i m y s stride =
        fbind (run_copies m (odd_copies 8 y s)) (\<lambda>m1.
          unpack_odd_neon_from (i + 32) m1 (ptr_add y 16) (ptr_add s 32) stride)"
    by (subst unpack_odd_neon_from.simps) (simp add: lt ov neon_odd_block [OF ap0 fy0 fs0])
  also have "\<dots> = fbind (run_copies m (odd_copies 8 y s)) (\<lambda>m1.
          run_copies m1 (odd_copies (8 * nb) (ptr_add y 16) (ptr_add s 32)))"
    by (rule fbind_cong_Inr) (rule rest)
  also have "\<dots> = run_copies m (odd_copies (8 * Suc nb) y s)"
    unfolding split run_copies_append ..
  finally show ?case .
qed

lemma neon_stride_no_overflow:
  "stride mod 32 = 0 \<Longrightarrow> stride \<le> INT_MAX \<Longrightarrow> stride \<le> INT_MAX - 31"
  unfolding INT_MAX_def by presburger

lemma unpack_even_neon_eq:
  assumes s: "stride = 4 * int n" and n: "n = 8 * nb" and le: "stride \<le> INT_MAX"
    and ap: "planes_apart 1 1 n y u v s" and fit: "planes_fit m 1 1 n y u v s"
  shows "unpack_even_neon m y u v s stride = unpack_even m y u v s stride"
proof -
  have s32: "stride = 32 * int nb" using s n by simp
  then have m32: "stride mod 32 = 0" and m4: "stride mod 4 = 0" by simp_all
  have nb: "nb = nat ((stride - 0 + 31) div 32)" using s32 by simp
  have "unpack_even_neon m y u v s stride = run_copies m (even_copies (8 * nb) y u v s)"
    unfolding unpack_even_neon_def
    using ap fit unfolding n
    by (rule unpack_even_neon_from_copies [OF neon_stride_no_overflow [OF m32 le] nb])
  also have "\<dots> = unpack_even m y u v s stride"
  proof -
    have "groups stride = 8 * nb" by (simp add: groups_def s32)
    with unpack_even_copies [OF valid_stride_no_overflow [OF m4 le], of m y u v s]
    show ?thesis by (simp only:)
  qed
  finally show ?thesis .
qed

lemma unpack_odd_neon_eq:
  assumes s: "stride = 4 * int n" and n: "n = 8 * nb" and le: "stride \<le> INT_MAX"
    and ap: "apart y (2 * n) s (4 * n)" and fit: "fits m y (2 * n)" "fits m s (4 * n)"
  shows "unpack_odd_neon m y s stride = unpack_odd m y s stride"
proof -
  have s32: "stride = 32 * int nb" using s n by simp
  then have m32: "stride mod 32 = 0" and m4: "stride mod 4 = 0" by simp_all
  have nb: "nb = nat ((stride - 0 + 31) div 32)" using s32 by simp
  have "unpack_odd_neon m y s stride = run_copies m (odd_copies (8 * nb) y s)"
    unfolding unpack_odd_neon_def
    using ap fit unfolding n
    by (rule unpack_odd_neon_from_copies [OF neon_stride_no_overflow [OF m32 le] nb])
  also have "\<dots> = unpack_odd m y s stride"
  proof -
    have "groups stride = 8 * nb" by (simp add: groups_def s32)
    with unpack_odd_copies [OF valid_stride_no_overflow [OF m4 le], of m y s]
    show ?thesis by (simp only:)
  qed
  finally show ?thesis .
qed

lemma unpack_even_length:
  "stride \<le> INT_MAX - 3 \<Longrightarrow> unpack_even m y u v s stride = Inr m' \<Longrightarrow>
   length (m' b) = length (m b)"
  by (simp add: unpack_even_copies run_copies_length)

lemma unpack_odd_length:
  "stride \<le> INT_MAX - 3 \<Longrightarrow> unpack_odd m y s stride = Inr m' \<Longrightarrow>
   length (m' b) = length (m b)"
  by (simp add: unpack_odd_copies run_copies_length)

lemma neon_frame_from:
  assumes s: "stride = 4 * int n" and n: "n = 8 * nb" and le: "stride \<le> INT_MAX"
    and h: "height \<le> INT_MAX - 1" and ap: "planes_apart (2 * P) P n y u v s"
  shows "rem = nat ((height - row + 1) div 2) \<Longrightarrow> k + rem \<le> P \<Longrightarrow>
     planes_fit m (2 * P) P n y u v s \<Longrightarrow>
     yuyv_to_yuv420p_neon_from row m
       (ptr_add y (int (2 * k * (2 * n)))) (ptr_add u (int (k * n)))
       (ptr_add v (int (k * n))) (ptr_add s (int (2 * k * (4 * n)))) stride height =
     yuyv_to_yuv420p_from row m
       (ptr_add y (int (2 * k * (2 * n)))) (ptr_add u (int (k * n)))
       (ptr_add v (int (k * n))) (ptr_add s (int (2 * k * (4 * n)))) stride height"
proof (induction rem arbitrary: row k m)
  case 0
  then have "\<not> row < height" by linarith
  then show ?case
    by (subst yuyv_to_yuv420p_neon_from.simps, subst yuyv_to_yuv420p_from.simps) simp
next
  case (Suc rem)
  let ?Y = "ptr_add y (int (2 * k * (2 * n)))" and ?U = "ptr_add u (int (k * n))"
  let ?V = "ptr_add v (int (k * n))" and ?S = "ptr_add s (int (2 * k * (4 * n)))"
  let ?Y1 = "ptr_add y (int ((2 * k + 1) * (2 * n)))"
  let ?S1 = "ptr_add s (int ((2 * k + 1) * (4 * n)))"
  let ?Y2 = "ptr_add y (int (2 * Suc k * (2 * n)))" and ?U2 = "ptr_add u (int (Suc k * n))"
  let ?V2 = "ptr_add v (int (Suc k * n))" and ?S2 = "ptr_add s (int (2 * Suc k * (4 * n)))"
  from Suc.prems have lt: "row < height" by linarith
  with h have ov: "\<not> row + 2 > INT_MAX" by simp
  have rem: "rem = nat ((height - (row + 2) + 1) div 2)" using Suc.prems(1) by linarith
  have k: "2 * k + 1 \<le> 2 * P" "k + 1 \<le> P" "(2 * k + 1) + 1 \<le> 2 * P" "0 + 0 \<le> P"
    "Suc k + rem \<le> P"
    using Suc.prems(2) by simp_all
  have m4: "stride mod 4 = 0" using s by simp
  note no = valid_stride_no_overflow [OF m4 le]
  have sd: "stride sdiv 2 = 2 * int n" "stride sdiv 4 = int n" by (simp_all add: s)
  have p1: "ptr_add ?Y (stride sdiv 2) = ?Y1" "ptr_add ?S stride = ?S1"
    unfolding sd by (simp_all add: s algebra_simps)
  have p2: "ptr_add ?Y1 (stride sdiv 2) = ?Y2" "ptr_add ?S1 stride = ?S2"
    "ptr_add ?U (stride sdiv 4) = ?U2" "ptr_add ?V (stride sdiv 4) = ?V2"
    unfolding sd by (simp_all add: s algebra_simps)
  have apE: "planes_apart 1 1 n ?Y ?U ?V ?S"
    by (rule planes_apart_sub [OF ap k(1,2)])
  have fitE: "planes_fit m 1 1 n ?Y ?U ?V ?S"
    by (rule planes_fit_sub [OF Suc.prems(3) k(1,2)])
  have eqE: "unpack_even_neon m ?Y ?U ?V ?S stride = unpack_even m ?Y ?U ?V ?S stride"
    by (rule unpack_even_neon_eq [OF s n le apE fitE])
  have apO: "apart ?Y1 (2 * n) ?S1 (4 * n)"
    using planes_apart_sub [OF ap k(3,4)] unfolding planes_apart_def by simp
  have tail: "fbind (unpack_odd_neon m1 ?Y1 ?S1 stride) (\<lambda>m2.
                yuyv_to_yuv420p_neon_from (row + 2) m2 ?Y2 ?U2 ?V2 ?S2 stride height) =
              fbind (unpack_odd m1 ?Y1 ?S1 stride) (\<lambda>m2.
                yuyv_to_yuv420p_from (row + 2) m2 ?Y2 ?U2 ?V2 ?S2 stride height)"
    if e: "unpack_even m ?Y ?U ?V ?S stride = Inr m1" for m1
  proof -
    note l1 = unpack_even_length [OF no e]
    have fit1: "planes_fit m1 (2 * P) P n y u v s"
      using Suc.prems(3) planes_fit_cong_length [of m1 m, OF l1] by simp
    have "fits m1 ?Y1 (2 * n)" "fits m1 ?S1 (4 * n)"
      using planes_fit_sub [OF fit1 k(3,4)] unfolding planes_fit_def by simp_all
    then have eqO: "unpack_odd_neon m1 ?Y1 ?S1 stride = unpack_odd m1 ?Y1 ?S1 stride"
      by (rule unpack_odd_neon_eq [OF s n le apO])
    have "yuyv_to_yuv420p_neon_from (row + 2) m2 ?Y2 ?U2 ?V2 ?S2 stride height =
          yuyv_to_yuv420p_from (row + 2) m2 ?Y2 ?U2 ?V2 ?S2 stride height"
      if o: "unpack_odd m1 ?Y1 ?S1 stride = Inr m2" for m2
    proof -
      note l2 = unpack_odd_length [OF no o]
      have "planes_fit m2 (2 * P) P n y u v s"
        using fit1 planes_fit_cong_length [of m2 m1, OF l2] by simp
      from Suc.IH [OF rem k(5) this] show ?thesis .
    qed
    then show ?thesis unfolding eqO by (rule fbind_cong_Inr)
  qed
  have "yuyv_to_yuv420p_neon_from row m ?Y ?U ?V ?S stride height =
        fbind (unpack_even m ?Y ?U ?V ?S stride) (\<lambda>m1.
          fbind (unpack_odd_neon m1 ?Y1 ?S1 stride) (\<lambda>m2.
            yuyv_to_yuv420p_neon_from (row + 2) m2 ?Y2 ?U2 ?V2 ?S2 stride height))"
    by (subst yuyv_to_yuv420p_neon_from.simps)
       (simp only: lt ov if_True if_False Let_def p1 p2 eqE)
  also have "\<dots> = fbind (unpack_even m ?Y ?U ?V ?S stride) (\<lambda>m1.
          fbind (unpack_odd m1 ?Y1 ?S1 stride) (\<lambda>m2.
            yuyv_to_yuv420p_from (row + 2) m2 ?Y2 ?U2 ?V2 ?S2 stride height))"
    by (rule fbind_cong_Inr) (rule tail)
  also have "\<dots> = yuyv_to_yuv420p_from row m ?Y ?U ?V ?S stride height"
    by (subst (2) yuyv_to_yuv420p_from.simps)
       (simp only: lt ov if_True if_False Let_def p1 p2)
  finally show ?case .
qed

lemma yuyv_to_yuv420p_neon_eq:
  assumes s: "stride = 4 * int n" and n: "n = 8 * nb" and le: "stride \<le> INT_MAX"
    and h: "height \<le> INT_MAX - 1" and P: "pairs height = P"
    and ap: "planes_apart (2 * P) P n y u v s" and fit: "planes_fit m (2 * P) P n y u v s"
  shows "yuyv_to_yuv420p_neon m y u v s stride height = yuyv_to_yuv420p m y u v s stride height"
proof -
  have rem: "P = nat ((height - 0 + 1) div 2)" using P by (simp add: pairs_def)
  from neon_frame_from [OF s n le h ap rem _ fit, of 0] show ?thesis
    by (simp add: yuyv_to_yuv420p_neon_def yuyv_to_yuv420p_def)
qed


section \<open>Running the kernel on concrete frames\<close>

lemmas kernel_defs =
  yuyv_to_yuv420p_def yuyv_to_yuv420p_from.simps unpack_even_def unpack_even_from.simps
  unpack_odd_def unpack_odd_from.simps unpack_even_group_def unpack_odd_group_def
  copy_byte_def load_def store_def valid_def peek_def ptr_add_def fbind_def INT_MAX_def
  signed_divide_int_def Let_def

lemmas buffer_defs = planes_apart_def planes_fit_def apart_def fits_def in_span_def

text \<open>
  The non-overlap invariant is the caller's to keep: the function takes plain pointers.
  Called with the luma pointer equal to the source pointer, on the frame
  \<open>[1,2,3,4 / 5,6,7,8]\<close>, it returns normally and leaves \<open>[1,3,5,7,5,6,7,8]\<close> in the
  object that is both source and luma plane.
\<close>

lemma in_place_call_overwrites_source:
  "yuyv_to_yuv420p inplace_frame (0, 0) (1, 0) (2, 0) (0, 0) 4 2 =
     Inr (inplace_frame(0 := [1, 3, 5, 7, 5, 6, 7, 8], 1 := [2], 2 := [4]))"
  by (simp add: kernel_defs inplace_frame_def fun_eq_iff)

lemma nth_take_eq: "take k xs = take k ys \<Longrightarrow> t < k \<Longrightarrow> xs ! t = ys ! t"
  by (metis nth_take)

text \<open>
  Claim C1. For the minimal frame (width 4, height 2, stride 8) with source row 0 =
  [100,128,101,64,102,128,103,64] and source row 1 = [110,a,111,b,112,c,113,d], whatever
  the chroma bytes a, b, c, d of row 1 and whatever the planes held before,
  \<open>yuyv_to_yuv420p\<close> returns normally and leaves luma row 0 = [100,101,102,103], luma
  row 1 = [110,111,112,113], U row 0 = [128,128] and V row 0 = [64,64]; the source is
  unchanged.
\<close>

theorem minimal_frame_converted:
  "yuyv_to_yuv420p (minimal_frame fy fu fv a b c d) (0, 0) (1, 0) (2, 0) (3, 0) 8 2 =
   Inr ((minimal_frame fy fu fv a b c d)
     (0 := [100, 101, 102, 103, 110, 111, 112, 113], 1 := [128, 128], 2 := [64, 64]))"
  by (simp add: kernel_defs minimal_frame_def fun_eq_iff upt_rec)


section \<open>The row unpackers\<close>

text \<open>
  Claim C2. For a source row of \<open>stride\<close> bytes, \<open>stride\<close> a positive multiple of 4
  (and a C \<^verbatim>\<open>int\<close>), with \<open>n = stride / 4\<close> groups: when the four row buffers (\<open>2n\<close>
  luma bytes, \<open>n\<close> U bytes, \<open>n\<close> V bytes, \<open>4n\<close> source bytes) lie inside their objects
  and do not overlap, the even-row unpacker is the sequence of byte copies that takes
  the groups left to right and, in group \<open>g = [Y0, U, Y1, V]\<close>, copies \<open>Y0\<close>, \<open>U\<close>,
  \<open>Y1\<close>, \<open>V\<close> in this order; it returns normally, and afterwards luma bytes \<open>2g\<close> and
  \<open>2g + 1\<close> hold \<open>Y0\<close> and \<open>Y1\<close>, byte \<open>g\<close> of the U plane holds \<open>U\<close>, byte \<open>g\<close> of the V
  plane holds \<open>V\<close>, all unmodified, and every byte outside the \<open>stride / 2\<close> luma bytes,
  the \<open>stride / 4\<close> U bytes and the \<open>stride / 4\<close> V bytes is as it was.
\<close>

theorem unpack_even_row:
  assumes "0 < stride" and "stride mod 4 = 0" and "stride \<le> INT_MAX"
    and "n = nat (stride div 4)"
    and "planes_apart 1 1 n y u v yuyv" and "planes_fit m 1 1 n y u v yuyv"
  shows "unpack_even m y u v yuyv stride = run_copies m (even_copies n y u v yuyv) \<and>
     (\<exists>m'. unpack_even m y u v yuyv stride = Inr m' \<and>
        (\<forall>b. length (m' b) = length (m b)) \<and>
        (\<forall>g<n. peek m' (ptr_add y (2 * int g)) = peek m (ptr_add yuyv (4 * int g)) \<and>
               peek m' (ptr_add y (2 * int g + 1)) = peek m (ptr_add yuyv (4 * int g + 2)) \<and>
               peek m' (ptr_add u (int g)) = peek m (ptr_add yuyv (4 * int g + 1)) \<and>
               peek m' (ptr_add v (int g)) = peek m (ptr_add yuyv (4 * int g + 3))) \<and>
        (\<forall>a. 0 \<le> snd a \<and> \<not> in_span a y (2 * n) \<and> \<not> in_span a u n \<and> \<not> in_span a v n \<longrightarrow>
             peek m' a = peek m a))"
proof -
  from assms(1,2,4) have stride: "stride = 4 * int n" by (rule valid_stride_eq)
  have eq: "unpack_even m y u v yuyv stride = run_copies m (even_copies n y u v yuyv)"
    using unpack_even_copies [OF valid_stride_no_overflow [OF assms(2,3)], of m y u v yuyv]
    by (simp add: stride)
  show ?thesis
    unfolding eq using even_row_result [OF assms(5,6)] by simp
qed

theorem unpack_even_row_witness:
  "\<exists>m'. unpack_even zero_frame (0, 0) (1, 0) (2, 0) (3, 0) 8 = Inr m' \<and>
        peek m' (0, 2) = 102 \<and> peek m' (0, 3) = 103 \<and> peek m' (1, 1) = 128 \<and>
        peek m' (2, 1) = 64 \<and> peek m' (0, 4) = 0"
proof -
  have n: "(2::nat) = nat (8 div 4)" by simp
  have ap: "planes_apart 1 1 2 (0, 0) (1, 0) (2, 0) (3, 0)"
    by (simp add: buffer_defs)
  have fit: "planes_fit zero_frame 1 1 2 (0, 0) (1, 0) (2, 0) (3, 0)"
    by (simp add: buffer_defs zero_frame_def minimal_frame_def)
  have s: "(0::int) < 8" "(8::int) mod 4 = 0" "(8::int) \<le> INT_MAX"
    by (simp_all add: INT_MAX_def)
  from unpack_even_row [OF s n ap fit]
  obtain m' where r: "unpack_even zero_frame (0, 0) (1, 0) (2, 0) (3, 0) 8 = Inr m'"
    and g: "\<forall>g<2. peek m' (ptr_add (0, 0) (2 * int g)) = peek zero_frame (ptr_add (3, 0) (4 * int g)) \<and>
               peek m' (ptr_add (0, 0) (2 * int g + 1)) = peek zero_frame (ptr_add (3, 0) (4 * int g + 2)) \<and>
               peek m' (ptr_add (1, 0) (int g)) = peek zero_frame (ptr_add (3, 0) (4 * int g + 1)) \<and>
               peek m' (ptr_add (2, 0) (int g)) = peek zero_frame (ptr_add (3, 0) (4 * int g + 3))"
    and a: "\<forall>a. 0 \<le> snd a \<and> \<not> in_span a (0, 0) (2 * 2) \<and> \<not> in_span a (1, 0) 2 \<and>
               \<not> in_span a (2, 0) 2 \<longrightarrow> peek m' a = peek zero_frame a"
    by blast
  from g [rule_format, of 1] a [rule_format, of "(0, 4)"] r show ?thesis
    by (simp add: ptr_add_def peek_def zero_frame_def minimal_frame_def in_span_def upt_rec)
qed

text \<open>
  Claim C3. For a source row of \<open>stride\<close> bytes, \<open>stride\<close> a positive multiple of 4,
  with \<open>n = stride / 4\<close>: when the luma buffer of \<open>2n\<close> bytes and the source row of \<open>4n\<close>
  bytes lie inside their objects and do not overlap, the odd-row unpacker returns
  normally, luma byte \<open>j\<close> holds source byte \<open>2j\<close> for every \<open>j < stride / 2\<close> (the bytes
  at the even offsets, every chroma position skipped), and every byte outside these
  \<open>stride / 2\<close> luma bytes is as it was: nothing is written to the U or V plane.
\<close>

theorem unpack_odd_row:
  assumes "0 < stride" and "stride mod 4 = 0" and "stride \<le> INT_MAX"
    and "n = nat (stride div 4)"
    and "apart y (2 * n) yuyv (4 * n)" and "fits m y (2 * n)" and "fits m yuyv (4 * n)"
  shows "unpack_odd m y yuyv stride = run_copies m (odd_copies n y yuyv) \<and>
     (\<exists>m'. unpack_odd m y yuyv stride = Inr m' \<and>
        (\<forall>b. length (m' b) = length (m b)) \<and>
        (\<forall>j<2 * n. peek m' (ptr_add y (int j)) = peek m (ptr_add yuyv (2 * int j))) \<and>
        (\<forall>a. 0 \<le> snd a \<and> \<not> in_span a y (2 * n) \<longrightarrow> peek m' a = peek m a))"
proof -
  from assms(1,2,4) have stride: "stride = 4 * int n" by (rule valid_stride_eq)
  have eq: "unpack_odd m y yuyv stride = run_copies m (odd_copies n y yuyv)"
    using unpack_odd_copies [OF valid_stride_no_overflow [OF assms(2,3)], of m y yuyv]
    by (simp add: stride)
  show ?thesis
    unfolding eq using odd_row_result [OF assms(5-7)] by simp
qed

theorem unpack_odd_row_witness:
  "\<exists>m'. unpack_odd zero_frame (0, 4) (3, 8) 8 = Inr m' \<and>
        peek m' (0, 4) = 110 \<and> peek m' (0, 7) = 113 \<and> peek m' (1, 0) = 0 \<and> peek m' (2, 1) = 0"
proof -
  have n: "(2::nat) = nat (8 div 4)" by simp
  have ap: "apart (0, 4) (2 * 2) (3, 8) (4 * 2)"
    by (simp add: buffer_defs)
  have fit: "fits zero_frame (0, 4) (2 * 2)" "fits zero_frame (3, 8) (4 * 2)"
    by (simp_all add: buffer_defs zero_frame_def minimal_frame_def)
  have s: "(0::int) < 8" "(8::int) mod 4 = 0" "(8::int) \<le> INT_MAX"
    by (simp_all add: INT_MAX_def)
  from unpack_odd_row [OF s n ap fit]
  obtain m' where r: "unpack_odd zero_frame (0, 4) (3, 8) 8 = Inr m'"
    and g: "\<forall>j<2 * 2. peek m' (ptr_add (0, 4) (int j)) = peek zero_frame (ptr_add (3, 8) (2 * int j))"
    and a: "\<forall>a. 0 \<le> snd a \<and> \<not> in_span a (0, 4) (2 * 2) \<longrightarrow> peek m' a = peek zero_frame a"
    by blast
  from g [rule_format, of 0] g [rule_format, of 3] a [rule_format, of "(1, 0)"]
    a [rule_format, of "(2, 1)"] r show ?thesis
    by (simp add: ptr_add_def peek_def zero_frame_def minimal_frame_def in_span_def upt_rec)
qed


section \<open>The frame converter\<close>

text \<open>
  Claim C4. For every even \<open>height \<ge> 2\<close> and every valid stride (a positive multiple
  of 4, \<open>n = stride / 4\<close>), \<open>yuyv_to_yuv420p\<close> is the sequence of the \<open>height / 2\<close> row
  pairs 0, 1, ... Row pair \<open>k\<close> unpacks an even row with the luma pointer advanced by
  \<open>2k\<close> times \<open>stride / 2\<close>, the U and V pointers by \<open>k\<close> times \<open>stride / 4\<close> and the
  source pointer by \<open>2k\<close> times \<open>stride\<close>, then an odd row with the luma pointer advanced
  by \<open>stride / 2\<close> more and the source pointer by \<open>stride\<close> more, the chroma pointers
  not being used: the luma pointer advances by \<open>stride / 2\<close> after each row, the chroma
  pointers by \<open>stride / 4\<close> after each even row only, the source pointer by \<open>stride\<close>
  after each row. The copies of a pair are those of one even row (one luma row, one U
  row, one V row, from one source row) followed by those of one odd row (one luma row
  from one source row). When the four buffers lie inside their objects and do not
  overlap, the call returns normally, and for every pair \<open>k\<close> the memory it returns holds:
  at luma offsets \<open>2k * (stride / 2)\<close> and \<open>(2k + 1) * (stride / 2)\<close> the luma bytes of
  the source rows at offsets \<open>2k * stride\<close> and \<open>(2k + 1) * stride\<close>, two luma rows from
  two source rows; at offset \<open>k * (stride / 4)\<close> of the U and of the V plane the U and V
  bytes of the source row at offset \<open>2k * stride\<close>, one row of each chroma plane; and
  every byte outside the three planes as it was.
\<close>

theorem frame_is_row_pairs:
  assumes "2 \<le> height" and "even height" and "height \<le> INT_MAX"
    and "0 < stride" and "stride mod 4 = 0" and "stride \<le> INT_MAX"
    and "n = nat (stride div 4)" and "P = nat (height div 2)"
  shows "yuyv_to_yuv420p m y u v yuyv stride height =
           row_pairs 0 P m y u v yuyv stride \<and>
         (\<forall>k m1. row_pair m1 y u v yuyv stride k =
            run_copies m1
              (even_copies n (ptr_add y (2 * int k * (stride div 2)))
                 (ptr_add u (int k * (stride div 4))) (ptr_add v (int k * (stride div 4)))
                 (ptr_add yuyv (2 * int k * stride)) @
               odd_copies n (ptr_add y ((2 * int k + 1) * (stride div 2)))
                 (ptr_add yuyv ((2 * int k + 1) * stride)))) \<and>
         (planes_apart (2 * P) P n y u v yuyv \<and> planes_fit m (2 * P) P n y u v yuyv \<longrightarrow>
            (\<exists>m'. yuyv_to_yuv420p m y u v yuyv stride height = Inr m' \<and>
               (\<forall>k<P. \<forall>j<2 * n.
                  peek m' (fst y, snd y + 2 * int k * (stride div 2) + int j) =
                    peek m (fst yuyv, snd yuyv + 2 * int k * stride + 2 * int j) \<and>
                  peek m' (fst y, snd y + (2 * int k + 1) * (stride div 2) + int j) =
                    peek m (fst yuyv, snd yuyv + (2 * int k + 1) * stride + 2 * int j)) \<and>
               (\<forall>k<P. \<forall>g<n.
                  peek m' (fst u, snd u + int k * (stride div 4) + int g) =
                    peek m (fst yuyv, snd yuyv + 2 * int k * stride + 4 * int g + 1) \<and>
                  peek m' (fst v, snd v + int k * (stride div 4) + int g) =
                    peek m (fst yuyv, snd yuyv + 2 * int k * stride + 4 * int g + 3)) \<and>
               (\<forall>a. 0 \<le> snd a \<and> \<not> in_span a y (2 * P * (2 * n)) \<and>
                    \<not> in_span a u (P * n) \<and> \<not> in_span a v (P * n) \<longrightarrow>
                    peek m' a = peek m a)))"
    (is "?eq \<and> ?pairs \<and> (?apart \<and> ?fit \<longrightarrow> ?result)")
proof -
  have h: "height \<le> INT_MAX - 1" using assms(2,3) by (rule even_height_no_overflow)
  have "0 < height" using assms(1) by simp
  from even_height_pairs [OF this assms(2,8)] have P: "pairs height = P" by blast
  have s: "stride = 4 * int n" using assms(4,5,7) by (rule valid_stride_eq)
  have no: "stride \<le> INT_MAX - 3" using assms(5,6) by (rule valid_stride_no_overflow)
  have pair: "row_pair m1 y u v yuyv stride k =
            run_copies m1
              (even_copies n (ptr_add y (2 * int k * (stride div 2)))
                 (ptr_add u (int k * (stride div 4))) (ptr_add v (int k * (stride div 4)))
                 (ptr_add yuyv (2 * int k * stride)) @
               odd_copies n (ptr_add y ((2 * int k + 1) * (stride div 2)))
                 (ptr_add yuyv ((2 * int k + 1) * stride)))" for k m1
    using row_pair_copies [OF no, of m1 y u v yuyv k] by (simp add: s pair_copies_def)
  have eq: "yuyv_to_yuv420p m y u v yuyv stride height = row_pairs 0 P m y u v yuyv stride"
    using yuyv_to_yuv420p_row_pairs [OF h, of m y u v yuyv stride] by (simp only: P)
  have mem: ?result
    if ap: "planes_apart (2 * P) P n y u v yuyv" and fit: "planes_fit m (2 * P) P n y u v yuyv"
  proof -
    from frame_bytes [OF s assms(6) h P ap fit] obtain m' where
      r: "yuyv_to_yuv420p m y u v yuyv stride height = Inr m'"
      and luma: "\<forall>r<2 * P. \<forall>j<2 * n.
           peek m' (fst y, snd y + int r * (stride div 2) + int j) =
           peek m (fst yuyv, snd yuyv + int r * stride + 2 * int j)"
      and chroma: "\<forall>p<P. \<forall>g<n.
           peek m' (fst u, snd u + int p * (stride div 4) + int g) =
             peek m (fst yuyv, snd yuyv + 2 * int p * stride + 4 * int g + 1) \<and>
           peek m' (fst v, snd v + int p * (stride div 4) + int g) =
             peek m (fst yuyv, snd yuyv + 2 * int p * stride + 4 * int g + 3)"
      and rest: "\<forall>a. 0 \<le> snd a \<and> \<not> in_span a y (2 * P * (2 * n)) \<and>
             \<not> in_span a u (P * n) \<and> \<not> in_span a v (P * n) \<longrightarrow> peek m' a = peek m a"
      by (elim exE conjE)
    have "peek m' (fst y, snd y + 2 * int k * (stride div 2) + int j) =
            peek m (fst yuyv, snd yuyv + 2 * int k * stride + 2 * int j) \<and>
          peek m' (fst y, snd y + (2 * int k + 1) * (stride div 2) + int j) =
            peek m (fst yuyv, snd yuyv + (2 * int k + 1) * stride + 2 * int j)"
      if k: "k < P" and j: "j < 2 * n" for k j
    proof -
      have r: "2 * k < 2 * P" "2 * k + 1 < 2 * P" using k by simp_all
      have i: "int (2 * k) = 2 * int k" "int (2 * k + 1) = 2 * int k + 1" by simp_all
      from luma [rule_format, OF r(1) j] luma [rule_format, OF r(2) j] show ?thesis
        unfolding i by (rule conjI)
    qed
    then have "\<forall>k<P. \<forall>j<2 * n.
        peek m' (fst y, snd y + 2 * int k * (stride div 2) + int j) =
          peek m (fst yuyv, snd yuyv + 2 * int k * stride + 2 * int j) \<and>
        peek m' (fst y, snd y + (2 * int k + 1) * (stride div 2) + int j) =
          peek m (fst yuyv, snd yuyv + (2 * int k + 1) * stride + 2 * int j)"
      by (intro allI impI)
    with r chroma rest show ?thesis by (intro exI [of _ m'] conjI)
  qed
  have c2: ?pairs by (intro allI) (rule pair)
  have c3: "?apart \<and> ?fit \<longrightarrow> ?result" by (intro impI, elim conjE) (rule mem)
  show ?thesis by (rule conjI [OF eq conjI [OF c2 c3]])
qed

theorem frame_is_row_pairs_witness:
  "\<exists>m'. yuyv_to_yuv420p tall_frame (0, 0) (1, 0) (2, 0) (3, 0) 4 4 = Inr m' \<and>
        peek m' (0, 0) = 10 \<and> peek m' (0, 3) = 22 \<and> peek m' (0, 4) = 30 \<and> peek m' (0, 7) = 42 \<and>
        peek m' (1, 0) = 11 \<and> peek m' (1, 1) = 31 \<and> peek m' (2, 0) = 13 \<and> peek m' (2, 1) = 33 \<and>
        peek m' (3, 1) = 11"
proof -
  have h: "(2::int) \<le> 4" "even (4::int)" "(4::int) \<le> INT_MAX"
    and s: "(0::int) < 4" "(4::int) mod 4 = 0" "(4::int) \<le> INT_MAX"
    and n: "(1::nat) = nat (4 div 4)" and P: "(2::nat) = nat (4 div 2)"
    by (simp_all add: INT_MAX_def)
  have ap: "planes_apart (2 * 2) 2 1 (0, 0) (1, 0) (2, 0) (3, 0)"
    by (simp add: buffer_defs)
  have fit: "planes_fit tall_frame (2 * 2) 2 1 (0, 0) (1, 0) (2, 0) (3, 0)"
    by (simp add: buffer_defs tall_frame_def)
  note T = frame_is_row_pairs [OF h s n P, of tall_frame "(0, 0)" "(1, 0)" "(2, 0)" "(3, 0)"]
  from T [THEN conjunct2, THEN conjunct2, THEN mp, OF conjI [OF ap fit]]
  obtain m' where r: "yuyv_to_yuv420p tall_frame (0, 0) (1, 0) (2, 0) (3, 0) 4 4 = Inr m'"
    and luma: "\<forall>k<2. \<forall>j<2 * 1.
       peek m' (fst (0::nat, 0::int), snd (0::nat, 0::int) + 2 * int k * (4 div 2) + int j) =
         peek tall_frame (fst (3::nat, 0::int), snd (3::nat, 0::int) + 2 * int k * 4 + 2 * int j) \<and>
       peek m' (fst (0::nat, 0::int), snd (0::nat, 0::int) + (2 * int k + 1) * (4 div 2) + int j) =
         peek tall_frame (fst (3::nat, 0::int), snd (3::nat, 0::int) + (2 * int k + 1) * 4 + 2 * int j)"
    and chroma: "\<forall>k<2. \<forall>g<1.
       peek m' (fst (1::nat, 0::int), snd (1::nat, 0::int) + int k * (4 div 4) + int g) =
         peek tall_frame (fst (3::nat, 0::int), snd (3::nat, 0::int) + 2 * int k * 4 + 4 * int g + 1) \<and>
       peek m' (fst (2::nat, 0::int), snd (2::nat, 0::int) + int k * (4 div 4) + int g) =
         peek tall_frame (fst (3::nat, 0::int), snd (3::nat, 0::int) + 2 * int k * 4 + 4 * int g + 3)"
    and rest: "\<forall>a. 0 \<le> snd a \<and> \<not> in_span a (0, 0) (2 * 2 * (2 * 1)) \<and>
       \<not> in_span a (1, 0) (2 * 1) \<and> \<not> in_span a (2, 0) (2 * 1) \<longrightarrow>
       peek m' a = peek tall_frame a"
    by (elim exE conjE)
  from luma [rule_format, of 0 0] luma [rule_format, of 0 1] luma [rule_format, of 1 0]
    luma [rule_format, of 1 1] chroma [rule_format, of 0 0] chroma [rule_format, of 1 0]
    rest [rule_format, of "(3, 1)"]
  have "peek m' (0, 0) = 10 \<and> peek m' (0, 3) = 22 \<and> peek m' (0, 4) = 30 \<and> peek m' (0, 7) = 42 \<and>
        peek m' (1, 0) = 11 \<and> peek m' (1, 1) = 31 \<and> peek m' (2, 0) = 13 \<and> peek m' (2, 1) = 33 \<and>
        peek m' (3, 1) = 11"
    by (simp add: peek_def tall_frame_def in_span_def)
  with r show ?thesis by blast
qed

text \<open>
  Claim C6. For every valid frame (stride a positive multiple of 4 with \<open>n = stride / 4\<close>,
  height positive and even with \<open>P = height / 2\<close>, the four buffers inside their objects
  and not overlapping), the call returns normally, and for every chroma block \<open>(r, c)\<close>
  with \<open>r < P\<close> and \<open>c < n\<close>, byte \<open>c\<close> of row \<open>r\<close> of the U plane is byte \<open>4c + 1\<close> of
  source row \<open>2r\<close> and byte \<open>c\<close> of row \<open>r\<close> of the V plane is byte \<open>4c + 3\<close> of source
  row \<open>2r\<close>. No byte of an odd source row matters: on any other memory \<open>m2\<close> that holds
  the same bytes in the even source rows (and anything at all in the odd source rows and
  everywhere else) the converter leaves the same U and V planes.
\<close>

theorem chroma_from_even_rows:
  assumes "0 < stride" and "stride mod 4 = 0" and "stride \<le> INT_MAX"
    and "0 < height" and "even height" and "height \<le> INT_MAX"
    and "n = nat (stride div 4)" and "P = nat (height div 2)"
    and "planes_apart (2 * P) P n y u v yuyv" and "planes_fit m (2 * P) P n y u v yuyv"
  shows "\<exists>m'. yuyv_to_yuv420p m y u v yuyv stride height = Inr m' \<and>
          (\<forall>r<P. \<forall>c<n.
             peek m' (ptr_add u (int (r * n + c))) =
               peek m (ptr_add yuyv (int (2 * r) * stride + 4 * int c + 1)) \<and>
             peek m' (ptr_add v (int (r * n + c))) =
               peek m (ptr_add yuyv (int (2 * r) * stride + 4 * int c + 3))) \<and>
          (\<forall>m2. planes_fit m2 (2 * P) P n y u v yuyv \<and>
                (\<forall>r<P. \<forall>t<4 * n. peek m2 (ptr_add yuyv (int (2 * r) * stride + int t)) =
                                    peek m (ptr_add yuyv (int (2 * r) * stride + int t))) \<longrightarrow>
             (\<exists>m2'. yuyv_to_yuv420p m2 y u v yuyv stride height = Inr m2' \<and>
                (\<forall>r<P. \<forall>c<n.
                   peek m2' (ptr_add u (int (r * n + c))) = peek m' (ptr_add u (int (r * n + c))) \<and>
                   peek m2' (ptr_add v (int (r * n + c))) = peek m' (ptr_add v (int (r * n + c))))))"
proof -
  have h: "height \<le> INT_MAX - 1" using assms(5,6) by (rule even_height_no_overflow)
  from even_height_pairs [OF assms(4,5,8)] have P: "pairs height = P" by blast
  have s: "stride = 4 * int n" using assms(1,2,7) by (rule valid_stride_eq)
  have eq: "yuyv_to_yuv420p m0 y u v yuyv stride height =
            run_copies m0 (valid_frame_copies P n y u v yuyv)" for m0
    using yuyv_to_yuv420p_valid [OF s assms(3) h, of m0 y u v yuyv] by (simp add: P)
  have off: "int (2 * p * (4 * n) + 4 * g + 1) = int (2 * p) * stride + 4 * int g + 1"
    "int (2 * p * (4 * n) + 4 * g + 3) = int (2 * p) * stride + 4 * int g + 3" for p g
    by (simp_all add: s)
  from frame_result [OF assms(9,10)] obtain m' where
    run: "run_copies m (valid_frame_copies P n y u v yuyv) = Inr m'" and
    chroma: "\<And>p g. p < P \<Longrightarrow> g < n \<Longrightarrow>
       peek m' (ptr_add u (int (p * n + g))) =
         peek m (ptr_add yuyv (int (2 * p * (4 * n) + 4 * g + 1))) \<and>
       peek m' (ptr_add v (int (p * n + g))) =
         peek m (ptr_add yuyv (int (2 * p * (4 * n) + 4 * g + 3)))"
    by blast
  have c1: "peek m' (ptr_add u (int (r * n + c))) =
               peek m (ptr_add yuyv (int (2 * r) * stride + 4 * int c + 1)) \<and>
            peek m' (ptr_add v (int (r * n + c))) =
               peek m (ptr_add yuyv (int (2 * r) * stride + 4 * int c + 3))"
    if "r < P" "c < n" for r c
    using chroma [OF that] unfolding off .
  have c2: "\<exists>m2'. yuyv_to_yuv420p m2 y u v yuyv stride height = Inr m2' \<and>
                (\<forall>r<P. \<forall>c<n.
                   peek m2' (ptr_add u (int (r * n + c))) = peek m' (ptr_add u (int (r * n + c))) \<and>
                   peek m2' (ptr_add v (int (r * n + c))) = peek m' (ptr_add v (int (r * n + c))))"
    if fit2: "planes_fit m2 (2 * P) P n y u v yuyv"
      and same: "\<forall>r<P. \<forall>t<4 * n. peek m2 (ptr_add yuyv (int (2 * r) * stride + int t)) =
                                    peek m (ptr_add yuyv (int (2 * r) * stride + int t))"
    for m2
  proof -
    from frame_result [OF assms(9) fit2] obtain m2' where
      run2: "run_copies m2 (valid_frame_copies P n y u v yuyv) = Inr m2'" and
      chroma2: "\<And>p g. p < P \<Longrightarrow> g < n \<Longrightarrow>
         peek m2' (ptr_add u (int (p * n + g))) =
           peek m2 (ptr_add yuyv (int (2 * p * (4 * n) + 4 * g + 1))) \<and>
         peek m2' (ptr_add v (int (p * n + g))) =
           peek m2 (ptr_add yuyv (int (2 * p * (4 * n) + 4 * g + 3)))"
      by blast
    have "peek m2' (ptr_add u (int (r * n + c))) = peek m' (ptr_add u (int (r * n + c))) \<and>
          peek m2' (ptr_add v (int (r * n + c))) = peek m' (ptr_add v (int (r * n + c)))"
      if rc: "r < P" "c < n" for r c
    proof -
      have t: "4 * c + 1 < 4 * n" "4 * c + 3 < 4 * n" using rc(2) by simp_all
      have i: "int (2 * r) * stride + int (4 * c + 1) = int (2 * r) * stride + 4 * int c + 1"
        "int (2 * r) * stride + int (4 * c + 3) = int (2 * r) * stride + 4 * int c + 3"
        by simp_all
      have "peek m2 (ptr_add yuyv (int (2 * r) * stride + int (4 * c + 1))) =
            peek m (ptr_add yuyv (int (2 * r) * stride + int (4 * c + 1)))"
        and "peek m2 (ptr_add yuyv (int (2 * r) * stride + int (4 * c + 3))) =
            peek m (ptr_add yuyv (int (2 * r) * stride + int (4 * c + 3)))"
        using same rc(1) t by blast+
      then have "peek m2 (ptr_add yuyv (int (2 * r) * stride + 4 * int c + 1)) =
            peek m (ptr_add yuyv (int (2 * r) * stride + 4 * int c + 1))"
        and "peek m2 (ptr_add yuyv (int (2 * r) * stride + 4 * int c + 3)) =
            peek m (ptr_add yuyv (int (2 * r) * stride + 4 * int c + 3))"
        unfolding i .
      with chroma2 [OF rc, unfolded off] c1 [OF rc] show ?thesis by metis
    qed
    with run2 show ?thesis unfolding eq by blast
  qed
  from run c1 c2 show ?thesis unfolding eq by blast
qed

theorem chroma_from_even_rows_witness:
  "\<exists>m' m2'. yuyv_to_yuv420p zero_frame (0, 0) (1, 0) (2, 0) (3, 0) 8 2 = Inr m' \<and>
     yuyv_to_yuv420p other_frame (0, 0) (1, 0) (2, 0) (3, 0) 8 2 = Inr m2' \<and>
     peek m' (1, 1) = 128 \<and> peek m' (2, 1) = 64 \<and>
     peek m2' (1, 1) = 128 \<and> peek m2' (2, 1) = 64"
proof -
  have s: "(0::int) < 8" "(8::int) mod 4 = 0" "(8::int) \<le> INT_MAX"
    and h: "(0::int) < 2" "even (2::int)" "(2::int) \<le> INT_MAX"
    and n: "(2::nat) = nat (8 div 4)" and P: "(1::nat) = nat (2 div 2)"
    by (simp_all add: INT_MAX_def)
  have ap: "planes_apart (2 * 1) 1 2 (0, 0) (1, 0) (2, 0) (3, 0)"
    by (simp add: buffer_defs)
  have fit: "planes_fit zero_frame (2 * 1) 1 2 (0, 0) (1, 0) (2, 0) (3, 0)"
    by (simp add: buffer_defs zero_frame_def minimal_frame_def)
  have fit2: "planes_fit other_frame (2 * 1) 1 2 (0, 0) (1, 0) (2, 0) (3, 0)"
    by (simp add: buffer_defs other_frame_def minimal_frame_def)
  have "take 8 (other_frame 3) = take 8 (zero_frame 3)"
    by (simp add: other_frame_def zero_frame_def minimal_frame_def)
  then have same: "\<forall>r<1. \<forall>t<4 * 2.
      peek other_frame (ptr_add (3, 0) (int (2 * r) * 8 + int t)) =
      peek zero_frame (ptr_add (3, 0) (int (2 * r) * 8 + int t))"
    by (auto simp: peek_def ptr_add_def dest: nth_take_eq)
  from chroma_from_even_rows [OF s h n P ap fit]
  obtain m' where r: "yuyv_to_yuv420p zero_frame (0, 0) (1, 0) (2, 0) (3, 0) 8 2 = Inr m'"
    and c: "\<forall>r<1. \<forall>c<2.
             peek m' (ptr_add (1, 0) (int (r * 2 + c))) =
               peek zero_frame (ptr_add (3, 0) (int (2 * r) * 8 + 4 * int c + 1)) \<and>
             peek m' (ptr_add (2, 0) (int (r * 2 + c))) =
               peek zero_frame (ptr_add (3, 0) (int (2 * r) * 8 + 4 * int c + 3))"
    and d: "\<forall>m2. planes_fit m2 (2 * 1) 1 2 (0, 0) (1, 0) (2, 0) (3, 0) \<and>
                (\<forall>r<1. \<forall>t<4 * 2. peek m2 (ptr_add (3, 0) (int (2 * r) * 8 + int t)) =
                                    peek zero_frame (ptr_add (3, 0) (int (2 * r) * 8 + int t))) \<longrightarrow>
             (\<exists>m2'. yuyv_to_yuv420p m2 (0, 0) (1, 0) (2, 0) (3, 0) 8 2 = Inr m2' \<and>
                (\<forall>r<1. \<forall>c<2.
                   peek m2' (ptr_add (1, 0) (int (r * 2 + c))) =
                     peek m' (ptr_add (1, 0) (int (r * 2 + c))) \<and>
                   peek m2' (ptr_add (2, 0) (int (r * 2 + c))) =
                     peek m' (ptr_add (2, 0) (int (r * 2 + c)))))"
    by blast
  from d fit2 same
  obtain m2' where r2: "yuyv_to_yuv420p other_frame (0, 0) (1, 0) (2, 0) (3, 0) 8 2 = Inr m2'"
    and c2: "\<forall>r<1. \<forall>c<2.
                   peek m2' (ptr_add (1, 0) (int (r * 2 + c))) =
                     peek m' (ptr_add (1, 0) (int (r * 2 + c))) \<and>
                   peek m2' (ptr_add (2, 0) (int (r * 2 + c))) =
                     peek m' (ptr_add (2, 0) (int (r * 2 + c)))"
    by blast
  from c [rule_format, of 0 1] c2 [rule_format, of 0 1]
  have "peek m' (1, 1) = 128 \<and> peek m' (2, 1) = 64 \<and>
        peek m2' (1, 1) = 128 \<and> peek m2' (2, 1) = 64"
    by (simp add: ptr_add_def peek_def zero_frame_def minimal_frame_def)
  with r r2 show ?thesis by blast
qed

text \<open>
  Claim C9. When \<open>height\<close> is even and positive, \<open>stride\<close> is a positive multiple of 4,
  the source object has exactly \<open>height * stride\<close> bytes, the luma object exactly
  \<open>height * stride / 2\<close> bytes and the U and V objects exactly
  \<open>(height / 2) * (stride / 4)\<close> bytes each, and the four pointers point to the first
  byte of their objects, the call returns normally: no read or write is out of range
  and no counter overflows, so the fault branch of the model is not reached.
\<close>

theorem frame_in_bounds:
  assumes "0 < height" and "even height" and "height \<le> INT_MAX"
    and "0 < stride" and "stride mod 4 = 0" and "stride \<le> INT_MAX"
    and "length (m sb) = nat (height * stride)"
    and "length (m yb) = nat (height * stride div 2)"
    and "length (m ub) = nat ((height div 2) * (stride div 4))"
    and "length (m vb) = nat ((height div 2) * (stride div 4))"
  shows "\<exists>m'. yuyv_to_yuv420p m (yb, 0) (ub, 0) (vb, 0) (sb, 0) stride height = Inr m'"
proof -
  define n where "n = nat (stride div 4)"
  define P where "P = nat (height div 2)"
  have h: "height \<le> INT_MAX - 1" using assms(2,3) by (rule even_height_no_overflow)
  from even_height_pairs [OF assms(1,2) P_def] have P: "pairs height = P" "height = 2 * int P"
    by blast+
  have s: "stride = 4 * int n" using assms(4,5) n_def by (rule valid_stride_eq)
  have "height * stride = int (2 * P * (4 * n))" "height * stride div 2 = int (2 * P * (2 * n))"
    "(height div 2) * (stride div 4) = int (P * n)"
    by (simp_all add: P(2) s)
  with assms(7-10) have "planes_fit m (2 * P) P n (yb, 0) (ub, 0) (vb, 0) (sb, 0)"
    by (simp add: planes_fit_def fits_def)
  from plane_copies_succeed [OF _ this, of "valid_frame_copies P n (yb, 0) (ub, 0) (vb, 0) (sb, 0)"]
  have "\<exists>m'. run_copies m (valid_frame_copies P n (yb, 0) (ub, 0) (vb, 0) (sb, 0)) = Inr m'"
    by (simp add: set_valid_frame_copies)
  then show ?thesis
    using yuyv_to_yuv420p_valid [OF s assms(6) h, of m "(yb, 0)" "(ub, 0)" "(vb, 0)" "(sb, 0)"]
    by (simp add: P(1))
qed

theorem frame_in_bounds_witness:
  "\<exists>m'. yuyv_to_yuv420p zero_frame (0, 0) (1, 0) (2, 0) (3, 0) 8 2 = Inr m'"
proof -
  have h: "(0::int) < 2" "even (2::int)" "(2::int) \<le> INT_MAX"
    and s: "(0::int) < 8" "(8::int) mod 4 = 0" "(8::int) \<le> INT_MAX"
    by (simp_all add: INT_MAX_def)
  have l: "length (zero_frame 3) = nat (2 * 8)" "length (zero_frame 0) = nat (2 * 8 div 2)"
    "length (zero_frame 1) = nat ((2 div 2) * (8 div 4))"
    "length (zero_frame 2) = nat ((2 div 2) * (8 div 4))"
    by (simp_all add: zero_frame_def minimal_frame_def)
  from frame_in_bounds [OF h s l] show ?thesis .
qed

text \<open>
  Claim C10. For every odd height \<open>h \<ge> 1\<close> (below \<^verbatim>\<open>INT_MAX\<close>, so that \<open>h + 1\<close> is a C
  \<^verbatim>\<open>int\<close>), whatever the memory, the pointers and the stride, the call with height \<open>h\<close>
  does exactly what the call with height \<open>h + 1\<close> does, and that is the sequence of the
  \<open>(h + 1) / 2\<close> complete row pairs: the last even row is followed by its odd row, one
  row beyond a frame of \<open>h\<close> rows. With a stride of \<open>4n\<close> bytes its byte copies are
  those of \<open>h + 1\<close> luma rows of \<open>2n\<close> bytes, taken from \<open>h + 1\<close> source rows of \<open>4n\<close>
  bytes, and of \<open>(h + 1) / 2\<close> rows of each chroma plane: \<open>(h + 1) * stride\<close> source
  bytes are consumed and \<open>(h + 1) * stride / 2\<close> luma bytes written. With buffers of
  \<open>h + 1\<close> rows that lie inside their objects and do not overlap, the call with height
  \<open>h\<close> returns normally and the memory it returns holds in each of the luma rows
  \<open>0, ..., h\<close> (row \<open>h\<close> included) the luma bytes of the source row of the same number,
  in each of the \<open>(h + 1) / 2\<close> rows of U and V the chroma bytes of the even source
  row of its pair, and every byte outside the three planes as it was.
\<close>

theorem odd_height_rounds_up:
  assumes "odd h" and "1 \<le> h" and "h < INT_MAX" and "P = nat ((h + 1) div 2)"
  shows "yuyv_to_yuv420p m y u v yuyv stride h = yuyv_to_yuv420p m y u v yuyv stride (h + 1) \<and>
         yuyv_to_yuv420p m y u v yuyv stride h = row_pairs 0 P m y u v yuyv stride \<and>
         (\<forall>n. stride = 4 * int n \<and> stride \<le> INT_MAX \<longrightarrow>
            (\<exists>cs. yuyv_to_yuv420p m y u v yuyv stride h = run_copies m cs \<and>
                  set cs = plane_copies (nat (h + 1)) P n y u v yuyv)) \<and>
         (\<forall>n. stride = 4 * int n \<and> stride \<le> INT_MAX \<and>
              planes_apart (nat (h + 1)) P n y u v yuyv \<and>
              planes_fit m (nat (h + 1)) P n y u v yuyv \<longrightarrow>
            (\<exists>m'. yuyv_to_yuv420p m y u v yuyv stride h = Inr m' \<and>
               (\<forall>r<nat (h + 1). \<forall>j<2 * n.
                  peek m' (fst y, snd y + int r * (stride div 2) + int j) =
                    peek m (fst yuyv, snd yuyv + int r * stride + 2 * int j)) \<and>
               (\<forall>p<P. \<forall>g<n.
                  peek m' (fst u, snd u + int p * (stride div 4) + int g) =
                    peek m (fst yuyv, snd yuyv + 2 * int p * stride + 4 * int g + 1) \<and>
                  peek m' (fst v, snd v + int p * (stride div 4) + int g) =
                    peek m (fst yuyv, snd yuyv + 2 * int p * stride + 4 * int g + 3)) \<and>
               (\<forall>a. 0 \<le> snd a \<and> \<not> in_span a y (nat (h + 1) * (2 * n)) \<and>
                    \<not> in_span a u (P * n) \<and> \<not> in_span a v (P * n) \<longrightarrow>
                    peek m' a = peek m a)))"
    (is "?next \<and> ?pairs \<and> ?copies \<and> ?memory")
proof -
  have h: "h \<le> INT_MAX - 1" "h + 1 \<le> INT_MAX - 1"
    using assms unfolding INT_MAX_def by presburger+
  have "(h + 1 + 1) div 2 = (h + 1) div 2" using assms(1) by presburger
  then have P1: "pairs (h + 1) = pairs h" unfolding pairs_def by simp
  have P: "pairs h = P" using assms(4) by (simp add: pairs_def)
  have "2 * ((h + 1) div 2) = h + 1" using assms(1) by presburger
  moreover have "0 \<le> (h + 1) div 2" using assms(2) by simp
  ultimately have R: "nat (h + 1) = 2 * P" unfolding assms(4) by linarith
  have c2: ?pairs
    using yuyv_to_yuv420p_row_pairs [OF h(1), of m y u v yuyv stride] by (simp only: P)
  have c1: ?next
    using yuyv_to_yuv420p_row_pairs [OF h(1), of m y u v yuyv stride]
      yuyv_to_yuv420p_row_pairs [OF h(2), of m y u v yuyv stride]
    by (simp only: P1)
  have c3: ?copies
  proof (intro allI impI, elim conjE)
    fix n assume s: "stride = 4 * int n" "stride \<le> INT_MAX"
    have "set (valid_frame_copies P n y u v yuyv) = plane_copies (nat (h + 1)) P n y u v yuyv"
      unfolding set_valid_frame_copies R ..
    with yuyv_to_yuv420p_valid [OF s h(1), of m y u v yuyv]
    show "\<exists>cs. yuyv_to_yuv420p m y u v yuyv stride h = run_copies m cs \<and>
               set cs = plane_copies (nat (h + 1)) P n y u v yuyv"
      unfolding P by (intro exI conjI)
  qed
  have c4: ?memory
  proof (intro allI impI, elim conjE)
    fix n assume s: "stride = 4 * int n" "stride \<le> INT_MAX"
      and ap: "planes_apart (nat (h + 1)) P n y u v yuyv"
      and fit: "planes_fit m (nat (h + 1)) P n y u v yuyv"
    from frame_bytes [OF s h(1) P ap [unfolded R] fit [unfolded R]]
    have "\<exists>m'. yuyv_to_yuv420p m y u v yuyv stride h = Inr m' \<and>
        (\<forall>r<2 * P. \<forall>j<2 * n.
           peek m' (fst y, snd y + int r * (stride div 2) + int j) =
           peek m (fst yuyv, snd yuyv + int r * stride + 2 * int j)) \<and>
        (\<forall>p<P. \<forall>g<n.
           peek m' (fst u, snd u + int p * (stride div 4) + int g) =
             peek m (fst yuyv, snd yuyv + 2 * int p * stride + 4 * int g + 1) \<and>
           peek m' (fst v, snd v + int p * (stride div 4) + int g) =
             peek m (fst yuyv, snd yuyv + 2 * int p * stride + 4 * int g + 3)) \<and>
        (\<forall>a. 0 \<le> snd a \<and> \<not> in_span a y (2 * P * (2 * n)) \<and> \<not> in_span a u (P * n) \<and>
             \<not> in_span a v (P * n) \<longrightarrow> peek m' a = peek m a)"
      by (elim exE conjE) (intro exI conjI)
    then show "\<exists>m'. yuyv_to_yuv420p m y u v yuyv stride h = Inr m' \<and>
               (\<forall>r<nat (h + 1). \<forall>j<2 * n.
                  peek m' (fst y, snd y + int r * (stride div 2) + int j) =
                    peek m (fst yuyv, snd yuyv + int r * stride + 2 * int j)) \<and>
               (\<forall>p<P. \<forall>g<n.
                  peek m' (fst u, snd u + int p * (stride div 4) + int g) =
                    peek m (fst yuyv, snd yuyv + 2 * int p * stride + 4 * int g + 1) \<and>
                  peek m' (fst v, snd v + int p * (stride div 4) + int g) =
                    peek m (fst yuyv, snd yuyv + 2 * int p * stride + 4 * int g + 3)) \<and>
               (\<forall>a. 0 \<le> snd a \<and> \<not> in_span a y (nat (h + 1) * (2 * n)) \<and>
                    \<not> in_span a u (P * n) \<and> \<not> in_span a v (P * n) \<longrightarrow>
                    peek m' a = peek m a)"
      unfolding R .
  qed
  show ?thesis by (rule conjI [OF c1 conjI [OF c2 conjI [OF c3 c4]]])
qed

theorem odd_height_rounds_up_witness:
  "yuyv_to_yuv420p tall_frame (0, 0) (1, 0) (2, 0) (3, 0) 4 3 =
     yuyv_to_yuv420p tall_frame (0, 0) (1, 0) (2, 0) (3, 0) 4 4 \<and>
   (\<exists>cs. yuyv_to_yuv420p tall_frame (0, 0) (1, 0) (2, 0) (3, 0) 4 3 = run_copies tall_frame cs \<and>
         set cs = plane_copies 4 2 1 (0, 0) (1, 0) (2, 0) (3, 0)) \<and>
   (\<exists>m'. yuyv_to_yuv420p tall_frame (0, 0) (1, 0) (2, 0) (3, 0) 4 3 = Inr m' \<and>
         peek m' (0, 4) = 30 \<and> peek m' (0, 5) = 32 \<and> peek m' (0, 6) = 40 \<and> peek m' (0, 7) = 42 \<and>
         peek m' (1, 1) = 31 \<and> peek m' (2, 1) = 33)"
proof -
  have h: "odd (3::int)" "(1::int) \<le> 3" "(3::int) < INT_MAX" and P: "(2::nat) = nat ((3 + 1) div 2)"
    by (simp_all add: INT_MAX_def)
  have R: "nat (3 + 1) = (4::nat)" by simp
  have s: "(4::int) = 4 * int 1 \<and> (4::int) \<le> INT_MAX" by (simp add: INT_MAX_def)
  have ap: "planes_apart 4 2 1 (0, 0) (1, 0) (2, 0) (3, 0)"
    by (simp add: buffer_defs)
  have fit: "planes_fit tall_frame 4 2 1 (0, 0) (1, 0) (2, 0) (3, 0)"
    by (simp add: buffer_defs tall_frame_def)
  note T = odd_height_rounds_up [OF h P, of tall_frame "(0, 0)" "(1, 0)" "(2, 0)" "(3, 0)" 4,
      unfolded R]
  have e: "yuyv_to_yuv420p tall_frame (0, 0) (1, 0) (2, 0) (3, 0) 4 3 =
           yuyv_to_yuv420p tall_frame (0, 0) (1, 0) (2, 0) (3, 0) 4 4"
    using T [THEN conjunct1] by simp
  from T [THEN conjunct2, THEN conjunct2, THEN conjunct1, rule_format, OF s]
  have c: "\<exists>cs. yuyv_to_yuv420p tall_frame (0, 0) (1, 0) (2, 0) (3, 0) 4 3 = run_copies tall_frame cs \<and>
         set cs = plane_copies 4 2 1 (0, 0) (1, 0) (2, 0) (3, 0)" .
  from T [THEN conjunct2, THEN conjunct2, THEN conjunct2, THEN spec, THEN mp,
      OF conjI [OF s [THEN conjunct1] conjI [OF s [THEN conjunct2] conjI [OF ap fit]]]]
  obtain m' where r: "yuyv_to_yuv420p tall_frame (0, 0) (1, 0) (2, 0) (3, 0) 4 3 = Inr m'"
    and luma: "\<forall>r<4. \<forall>j<2 * 1.
       peek m' (fst (0::nat, 0::int), snd (0::nat, 0::int) + int r * (4 div 2) + int j) =
         peek tall_frame (fst (3::nat, 0::int), snd (3::nat, 0::int) + int r * 4 + 2 * int j)"
    and chroma: "\<forall>p<2. \<forall>g<1.
       peek m' (fst (1::nat, 0::int), snd (1::nat, 0::int) + int p * (4 div 4) + int g) =
         peek tall_frame (fst (3::nat, 0::int), snd (3::nat, 0::int) + 2 * int p * 4 + 4 * int g + 1) \<and>
       peek m' (fst (2::nat, 0::int), snd (2::nat, 0::int) + int p * (4 div 4) + int g) =
         peek tall_frame (fst (3::nat, 0::int), snd (3::nat, 0::int) + 2 * int p * 4 + 4 * int g + 3)"
    by (elim exE conjE)
  from luma [rule_format, of 2 0] luma [rule_format, of 2 1] luma [rule_format, of 3 0]
    luma [rule_format, of 3 1] chroma [rule_format, of 1 0]
  have "peek m' (0, 4) = 30 \<and> peek m' (0, 5) = 32 \<and> peek m' (0, 6) = 40 \<and> peek m' (0, 7) = 42 \<and>
        peek m' (1, 1) = 31 \<and> peek m' (2, 1) = 33"
    by (simp add: peek_def tall_frame_def)
  with r have "\<exists>m'. yuyv_to_yuv420p tall_frame (0, 0) (1, 0) (2, 0) (3, 0) 4 3 = Inr m' \<and>
         peek m' (0, 4) = 30 \<and> peek m' (0, 5) = 32 \<and> peek m' (0, 6) = 40 \<and> peek m' (0, 7) = 42 \<and>
         peek m' (1, 1) = 31 \<and> peek m' (2, 1) = 33"
    by (intro exI [of _ m'] conjI) simp_all
  with e c show ?thesis by (intro conjI)
qed


section \<open>Geometry checks and side effects\<close>




text \<open>
  Claim C8. For every frame that meets the invariants of the data model (the stride a
  positive multiple of 4, the height positive, the four buffers inside their objects, no
  two of them overlapping; \<open>n = stride / 4\<close>, \<open>P\<close> the number of row pairs), the call
  returns normally and: no object changes its size; every byte outside the \<open>2P * 2n\<close>
  luma bytes at \<open>y\<close>, the \<open>P * n\<close> bytes at \<open>u\<close> and the \<open>P * n\<close> bytes at \<open>v\<close> is as
  it was; in particular each of the \<open>2P * 4n\<close> bytes of the packed source buffer is as
  it was. What the three planes hold afterwards depends on the bytes of the source
  buffer alone: the call on any other memory in which the buffers fit and the source
  buffer holds the same bytes, whatever the planes held before and whatever else the
  memory holds, returns normally with the same luma, U and V bytes; and so does a
  second call, on the memory that the first one returned. The model is a function of
  its arguments and of memory: there is no other state to read, write or keep.
\<close>

theorem only_output_buffers_modified:
  assumes "0 < stride" and "stride mod 4 = 0" and "stride \<le> INT_MAX"
    and "0 < height" and "height < INT_MAX"
    and "n = nat (stride div 4)" and "P = nat ((height + 1) div 2)"
    and "planes_apart (2 * P) P n y u v yuyv" and "planes_fit m (2 * P) P n y u v yuyv"
  shows "\<exists>m'. yuyv_to_yuv420p m y u v yuyv stride height = Inr m' \<and>
           (\<forall>b. length (m' b) = length (m b)) \<and>
           (\<forall>a. 0 \<le> snd a \<and> \<not> in_span a y (2 * P * (2 * n)) \<and> \<not> in_span a u (P * n) \<and>
                \<not> in_span a v (P * n) \<longrightarrow> peek m' a = peek m a) \<and>
           (\<forall>t<2 * P * (4 * n).
              peek m' (fst yuyv, snd yuyv + int t) = peek m (fst yuyv, snd yuyv + int t)) \<and>
           (\<forall>m2. planes_fit m2 (2 * P) P n y u v yuyv \<and>
                (\<forall>t<2 * P * (4 * n).
                   peek m2 (fst yuyv, snd yuyv + int t) = peek m (fst yuyv, snd yuyv + int t)) \<longrightarrow>
              (\<exists>m2'. yuyv_to_yuv420p m2 y u v yuyv stride height = Inr m2' \<and>
                 (\<forall>r<2 * P. \<forall>j<2 * n.
                    peek m2' (fst y, snd y + int r * (stride div 2) + int j) =
                      peek m' (fst y, snd y + int r * (stride div 2) + int j)) \<and>
                 (\<forall>p<P. \<forall>g<n.
                    peek m2' (fst u, snd u + int p * (stride div 4) + int g) =
                      peek m' (fst u, snd u + int p * (stride div 4) + int g) \<and>
                    peek m2' (fst v, snd v + int p * (stride div 4) + int g) =
                      peek m' (fst v, snd v + int p * (stride div 4) + int g)))) \<and>
           (\<exists>m''. yuyv_to_yuv420p m' y u v yuyv stride height = Inr m'' \<and>
              (\<forall>r<2 * P. \<forall>j<2 * n.
                 peek m'' (fst y, snd y + int r * (stride div 2) + int j) =
                   peek m' (fst y, snd y + int r * (stride div 2) + int j)) \<and>
              (\<forall>p<P. \<forall>g<n.
                 peek m'' (fst u, snd u + int p * (stride div 4) + int g) =
                   peek m' (fst u, snd u + int p * (stride div 4) + int g) \<and>
                 peek m'' (fst v, snd v + int p * (stride div 4) + int g) =
                   peek m' (fst v, snd v + int p * (stride div 4) + int g)))"
proof -
  have s: "stride = 4 * int n" by (rule valid_stride_eq [OF assms(1,2,6)])
  have h: "height \<le> INT_MAX - 1" using assms(5) by simp
  have P: "pairs height = P" using assms(7) by (simp add: pairs_def)
  note le = assms(3) and ap = assms(8)
  have src_t: "int r * stride + 2 * int j = int (r * (4 * n) + 2 * j)" for r j
    by (simp add: s)
  have src_lt: "r * (4 * n) + k < 2 * P * (4 * n)" if "r < 2 * P" "k < 4 * n" for r k
  proof -
    have "r * (4 * n) + k < r * (4 * n) + 4 * n" using that(2) by simp
    also have "\<dots> = Suc r * (4 * n)" by simp
    also have "\<dots> \<le> 2 * P * (4 * n)" using that(1) by (intro mult_le_mono1) simp
    finally show ?thesis .
  qed
  from frame_bytes [OF s le h P ap assms(9)]
  obtain m' where r: "yuyv_to_yuv420p m y u v yuyv stride height = Inr m'"
    and len: "\<forall>b. length (m' b) = length (m b)"
    and luma: "\<forall>r<2 * P. \<forall>j<2 * n.
         peek m' (fst y, snd y + int r * (stride div 2) + int j) =
         peek m (fst yuyv, snd yuyv + int r * stride + 2 * int j)"
    and chroma: "\<forall>p<P. \<forall>g<n.
         peek m' (fst u, snd u + int p * (stride div 4) + int g) =
           peek m (fst yuyv, snd yuyv + 2 * int p * stride + 4 * int g + 1) \<and>
         peek m' (fst v, snd v + int p * (stride div 4) + int g) =
           peek m (fst yuyv, snd yuyv + 2 * int p * stride + 4 * int g + 3)"
    and rest: "\<forall>a. 0 \<le> snd a \<and> \<not> in_span a y (2 * P * (2 * n)) \<and> \<not> in_span a u (P * n) \<and>
         \<not> in_span a v (P * n) \<longrightarrow> peek m' a = peek m a"
    by (elim exE conjE)
  have src: "\<forall>t<2 * P * (4 * n).
      peek m' (fst yuyv, snd yuyv + int t) = peek m (fst yuyv, snd yuyv + int t)"
  proof (intro allI impI)
    fix t assume t: "t < 2 * P * (4 * n)"
    have a: "(fst yuyv, snd yuyv + int t) = ptr_add yuyv (int t)" by (simp add: ptr_add_def)
    have "fits m yuyv (2 * P * (4 * n))" using assms(9) by (simp add: planes_fit_def)
    with t have 0: "0 \<le> snd (ptr_add yuyv (int t))" by (auto simp: fits_def ptr_add_def)
    from ap have "apart y (2 * P * (2 * n)) yuyv (2 * P * (4 * n))"
      "apart u (P * n) yuyv (2 * P * (4 * n))" "apart v (P * n) yuyv (2 * P * (4 * n))"
      by (simp_all add: planes_apart_def)
    from apart_not_in_span [OF this(1) t] apart_not_in_span [OF this(2) t]
      apart_not_in_span [OF this(3) t] 0 rest [rule_format, of "ptr_add yuyv (int t)"]
    show "peek m' (fst yuyv, snd yuyv + int t) = peek m (fst yuyv, snd yuyv + int t)"
      unfolding a by simp
  qed
  have same: "\<exists>m2'. yuyv_to_yuv420p m2 y u v yuyv stride height = Inr m2' \<and>
         (\<forall>r<2 * P. \<forall>j<2 * n.
            peek m2' (fst y, snd y + int r * (stride div 2) + int j) =
              peek m' (fst y, snd y + int r * (stride div 2) + int j)) \<and>
         (\<forall>p<P. \<forall>g<n.
            peek m2' (fst u, snd u + int p * (stride div 4) + int g) =
              peek m' (fst u, snd u + int p * (stride div 4) + int g) \<and>
            peek m2' (fst v, snd v + int p * (stride div 4) + int g) =
              peek m' (fst v, snd v + int p * (stride div 4) + int g))"
    if fit2: "planes_fit m2 (2 * P) P n y u v yuyv"
      and agree: "\<forall>t<2 * P * (4 * n).
         peek m2 (fst yuyv, snd yuyv + int t) = peek m (fst yuyv, snd yuyv + int t)" for m2
  proof -
    from frame_bytes [OF s le h P ap fit2]
    obtain m2' where r2: "yuyv_to_yuv420p m2 y u v yuyv stride height = Inr m2'"
      and luma2: "\<forall>r<2 * P. \<forall>j<2 * n.
         peek m2' (fst y, snd y + int r * (stride div 2) + int j) =
         peek m2 (fst yuyv, snd yuyv + int r * stride + 2 * int j)"
      and chroma2: "\<forall>p<P. \<forall>g<n.
         peek m2' (fst u, snd u + int p * (stride div 4) + int g) =
           peek m2 (fst yuyv, snd yuyv + 2 * int p * stride + 4 * int g + 1) \<and>
         peek m2' (fst v, snd v + int p * (stride div 4) + int g) =
           peek m2 (fst yuyv, snd yuyv + 2 * int p * stride + 4 * int g + 3)"
      by (elim exE conjE)
    have L: "peek m2' (fst y, snd y + int r * (stride div 2) + int j) =
             peek m' (fst y, snd y + int r * (stride div 2) + int j)"
      if "r < 2 * P" "j < 2 * n" for r j
    proof -
      have lt: "r * (4 * n) + 2 * j < 2 * P * (4 * n)"
        by (rule src_lt [OF that(1)]) (use that(2) in simp)
      have e: "snd yuyv + int r * stride + 2 * int j = snd yuyv + int (r * (4 * n) + 2 * j)"
        by (simp add: s)
      show ?thesis
        using luma2 [rule_format, OF that] luma [rule_format, OF that] agree [rule_format, OF lt]
        unfolding e by simp
    qed
    have C: "peek m2' (fst u, snd u + int p * (stride div 4) + int g) =
               peek m' (fst u, snd u + int p * (stride div 4) + int g) \<and>
             peek m2' (fst v, snd v + int p * (stride div 4) + int g) =
               peek m' (fst v, snd v + int p * (stride div 4) + int g)"
      if "p < P" "g < n" for p g
    proof -
      have p2: "2 * p < 2 * P" using that(1) by simp
      have lt: "2 * p * (4 * n) + (4 * g + 1) < 2 * P * (4 * n)"
        "2 * p * (4 * n) + (4 * g + 3) < 2 * P * (4 * n)"
        by (rule src_lt [OF p2], use that(2) in simp)+
      have e: "snd yuyv + 2 * int p * stride + 4 * int g + 1 =
                 snd yuyv + int (2 * p * (4 * n) + (4 * g + 1))"
        "snd yuyv + 2 * int p * stride + 4 * int g + 3 =
                 snd yuyv + int (2 * p * (4 * n) + (4 * g + 3))"
        by (simp_all add: s)
      show ?thesis
        using chroma2 [rule_format, OF that] chroma [rule_format, OF that]
          agree [rule_format, OF lt(1)] agree [rule_format, OF lt(2)]
        unfolding e by simp
    qed
    from L C show ?thesis by (intro exI [of _ m2'] conjI r2 allI impI) simp_all
  qed
  have nonint: "\<forall>m2. planes_fit m2 (2 * P) P n y u v yuyv \<and>
        (\<forall>t<2 * P * (4 * n).
           peek m2 (fst yuyv, snd yuyv + int t) = peek m (fst yuyv, snd yuyv + int t)) \<longrightarrow>
      (\<exists>m2'. yuyv_to_yuv420p m2 y u v yuyv stride height = Inr m2' \<and>
         (\<forall>r<2 * P. \<forall>j<2 * n.
            peek m2' (fst y, snd y + int r * (stride div 2) + int j) =
              peek m' (fst y, snd y + int r * (stride div 2) + int j)) \<and>
         (\<forall>p<P. \<forall>g<n.
            peek m2' (fst u, snd u + int p * (stride div 4) + int g) =
              peek m' (fst u, snd u + int p * (stride div 4) + int g) \<and>
            peek m2' (fst v, snd v + int p * (stride div 4) + int g) =
              peek m' (fst v, snd v + int p * (stride div 4) + int g)))"
    by (intro allI impI, elim conjE) (rule same)
  have fit': "planes_fit m' (2 * P) P n y u v yuyv"
    unfolding planes_fit_cong_length [of m' m, OF len [rule_format]] by (rule assms(9))
  note again = same [OF fit' src]
  show ?thesis
    by (rule exI [of _ m'],
        rule conjI [OF r conjI [OF len conjI [OF rest conjI [OF src conjI [OF nonint again]]]]])
qed

theorem only_output_buffers_modified_witness:
  "\<exists>m'. yuyv_to_yuv420p busy_frame (0, 0) (1, 0) (2, 0) (3, 0) 4 4 = Inr m' \<and>
        length (m' 0) = 8 \<and> length (m' 3) = 16 \<and> peek m' (4, 1) = 78 \<and>
        peek m' (3, 0) = 10 \<and> peek m' (3, 15) = 43 \<and> peek m' (0, 7) = 42 \<and>
        (\<exists>m2'. yuyv_to_yuv420p tall_frame (0, 0) (1, 0) (2, 0) (3, 0) 4 4 = Inr m2' \<and>
           peek m2' (0, 0) = peek m' (0, 0) \<and> peek m2' (0, 7) = peek m' (0, 7) \<and>
           peek m2' (1, 1) = peek m' (1, 1) \<and> peek m2' (2, 0) = peek m' (2, 0)) \<and>
        (\<exists>m''. yuyv_to_yuv420p m' (0, 0) (1, 0) (2, 0) (3, 0) 4 4 = Inr m'' \<and>
           peek m'' (0, 7) = 42)"
proof -
  have s: "(0::int) < 4" "(4::int) mod 4 = 0" "(4::int) \<le> INT_MAX"
    and h: "(0::int) < 4" "(4::int) < INT_MAX"
    and n: "(1::nat) = nat (4 div 4)" and P: "(2::nat) = nat ((4 + 1) div 2)"
    by (simp_all add: INT_MAX_def)
  have ap: "planes_apart (2 * 2) 2 1 (0, 0) (1, 0) (2, 0) (3, 0)"
    by (simp add: buffer_defs)
  have fit: "planes_fit busy_frame (2 * 2) 2 1 (0, 0) (1, 0) (2, 0) (3, 0)"
    by (simp add: buffer_defs busy_frame_def)
  have fit2: "planes_fit tall_frame (2 * 2) 2 1 (0, 0) (1, 0) (2, 0) (3, 0)"
    by (simp add: buffer_defs tall_frame_def)
  have agree: "\<forall>t<2 * 2 * (4 * 1).
      peek tall_frame (fst (3::nat, 0::int), snd (3::nat, 0::int) + int t) =
      peek busy_frame (fst (3::nat, 0::int), snd (3::nat, 0::int) + int t)"
    by (simp add: peek_def tall_frame_def busy_frame_def)
  from only_output_buffers_modified [OF s h n P ap fit]
  obtain m' m3 where r: "yuyv_to_yuv420p busy_frame (0, 0) (1, 0) (2, 0) (3, 0) 4 4 = Inr m'"
    and len: "\<forall>b. length (m' b) = length (busy_frame b)"
    and rest: "\<forall>a. 0 \<le> snd a \<and> \<not> in_span a (0, 0) (2 * 2 * (2 * 1)) \<and>
         \<not> in_span a (1, 0) (2 * 1) \<and> \<not> in_span a (2, 0) (2 * 1) \<longrightarrow>
         peek m' a = peek busy_frame a"
    and src: "\<forall>t<2 * 2 * (4 * 1).
         peek m' (fst (3::nat, 0::int), snd (3::nat, 0::int) + int t) =
         peek busy_frame (fst (3::nat, 0::int), snd (3::nat, 0::int) + int t)"
    and nonint: "\<forall>m2. planes_fit m2 (2 * 2) 2 1 (0, 0) (1, 0) (2, 0) (3, 0) \<and>
        (\<forall>t<2 * 2 * (4 * 1).
           peek m2 (fst (3::nat, 0::int), snd (3::nat, 0::int) + int t) =
           peek busy_frame (fst (3::nat, 0::int), snd (3::nat, 0::int) + int t)) \<longrightarrow>
      (\<exists>m2'. yuyv_to_yuv420p m2 (0, 0) (1, 0) (2, 0) (3, 0) 4 4 = Inr m2' \<and>
         (\<forall>r<2 * 2. \<forall>j<2 * 1.
            peek m2' (fst (0::nat, 0::int), snd (0::nat, 0::int) + int r * (4 div 2) + int j) =
              peek m' (fst (0::nat, 0::int), snd (0::nat, 0::int) + int r * (4 div 2) + int j)) \<and>
         (\<forall>p<2. \<forall>g<1.
            peek m2' (fst (1::nat, 0::int), snd (1::nat, 0::int) + int p * (4 div 4) + int g) =
              peek m' (fst (1::nat, 0::int), snd (1::nat, 0::int) + int p * (4 div 4) + int g) \<and>
            peek m2' (fst (2::nat, 0::int), snd (2::nat, 0::int) + int p * (4 div 4) + int g) =
              peek m' (fst (2::nat, 0::int), snd (2::nat, 0::int) + int p * (4 div 4) + int g)))"
    and r3: "yuyv_to_yuv420p m' (0, 0) (1, 0) (2, 0) (3, 0) 4 4 = Inr m3"
    and luma3: "\<forall>r<2 * 2. \<forall>j<2 * 1.
            peek m3 (fst (0::nat, 0::int), snd (0::nat, 0::int) + int r * (4 div 2) + int j) =
              peek m' (fst (0::nat, 0::int), snd (0::nat, 0::int) + int r * (4 div 2) + int j)"
    and chroma3: "\<forall>p<2. \<forall>g<1.
            peek m3 (fst (1::nat, 0::int), snd (1::nat, 0::int) + int p * (4 div 4) + int g) =
              peek m' (fst (1::nat, 0::int), snd (1::nat, 0::int) + int p * (4 div 4) + int g) \<and>
            peek m3 (fst (2::nat, 0::int), snd (2::nat, 0::int) + int p * (4 div 4) + int g) =
              peek m' (fst (2::nat, 0::int), snd (2::nat, 0::int) + int p * (4 div 4) + int g)"
    by (elim exE conjE)
  have l: "length (m' 0) = 8" "length (m' 3) = 16"
    using len [rule_format, of 0] len [rule_format, of 3] by (simp_all add: busy_frame_def)
  have b: "peek m' (4, 1) = 78"
    using rest [rule_format, of "(4, 1)"] by (simp add: in_span_def peek_def busy_frame_def)
  have t: "peek m' (3, 0) = 10" "peek m' (3, 15) = 43"
    using src [rule_format, of 0] src [rule_format, of 15] by (simp_all add: peek_def busy_frame_def)
  have v: "(4::int) = 4 * int 1" and h1: "(4::int) \<le> INT_MAX - 1" and P': "pairs 4 = 2"
    by (simp_all add: INT_MAX_def pairs_def)
  from frame_bytes [OF v s(3) h1 P' ap fit]
  obtain m'' where r': "yuyv_to_yuv420p busy_frame (0, 0) (1, 0) (2, 0) (3, 0) 4 4 = Inr m''"
    and luma: "\<forall>r<2 * 2. \<forall>j<2 * 1.
         peek m'' (fst (0::nat, 0::int), snd (0::nat, 0::int) + int r * (4 div 2) + int j) =
         peek busy_frame (fst (3::nat, 0::int), snd (3::nat, 0::int) + int r * 4 + 2 * int j)"
    by (elim exE conjE)
  from r r' have "m'' = m'" by simp
  with luma [rule_format, of 3 1] have w: "peek m' (0, 7) = 42"
    by (simp add: peek_def busy_frame_def)
  from nonint [rule_format, OF conjI [OF fit2 agree]]
  obtain m2' where r2: "yuyv_to_yuv420p tall_frame (0, 0) (1, 0) (2, 0) (3, 0) 4 4 = Inr m2'"
    and luma2: "\<forall>r<2 * 2. \<forall>j<2 * 1.
            peek m2' (fst (0::nat, 0::int), snd (0::nat, 0::int) + int r * (4 div 2) + int j) =
              peek m' (fst (0::nat, 0::int), snd (0::nat, 0::int) + int r * (4 div 2) + int j)"
    and chroma2: "\<forall>p<2. \<forall>g<1.
            peek m2' (fst (1::nat, 0::int), snd (1::nat, 0::int) + int p * (4 div 4) + int g) =
              peek m' (fst (1::nat, 0::int), snd (1::nat, 0::int) + int p * (4 div 4) + int g) \<and>
            peek m2' (fst (2::nat, 0::int), snd (2::nat, 0::int) + int p * (4 div 4) + int g) =
              peek m' (fst (2::nat, 0::int), snd (2::nat, 0::int) + int p * (4 div 4) + int g)"
    by (elim exE conjE)
  from luma2 [rule_format, of 0 0] luma2 [rule_format, of 3 1] chroma2 [rule_format, of 1 0]
    chroma2 [rule_format, of 0 0]
  have e: "peek m2' (0, 0) = peek m' (0, 0)" "peek m2' (0, 7) = peek m' (0, 7)"
    "peek m2' (1, 1) = peek m' (1, 1)" "peek m2' (2, 0) = peek m' (2, 0)"
    by simp_all
  have other: "\<exists>m2'. yuyv_to_yuv420p tall_frame (0, 0) (1, 0) (2, 0) (3, 0) 4 4 = Inr m2' \<and>
           peek m2' (0, 0) = peek m' (0, 0) \<and> peek m2' (0, 7) = peek m' (0, 7) \<and>
           peek m2' (1, 1) = peek m' (1, 1) \<and> peek m2' (2, 0) = peek m' (2, 0)"
    by (rule exI [of _ m2'], intro conjI r2 e)
  from luma3 [rule_format, of 3 1] w have "peek m3 (0, 7) = 42" by simp
  with r3 have second: "\<exists>m''. yuyv_to_yuv420p m' (0, 0) (1, 0) (2, 0) (3, 0) 4 4 = Inr m'' \<and>
           peek m'' (0, 7) = 42"
    by (intro exI [of _ m3] conjI)
  show ?thesis
    by (rule exI [of _ m'],
        rule conjI [OF r conjI [OF l(1) conjI [OF l(2) conjI [OF b conjI [OF t(1)
          conjI [OF t(2) conjI [OF w conjI [OF other second]]]]]]]])
qed


section \<open>The two strategies\<close>

text \<open>
  Claim C5. For every frame that meets the preconditions of both strategies (stride a
  positive multiple of 32, so that the width \<open>stride / 2\<close> is even; height positive and
  even; the four buffers inside their objects and not overlapping), the NEON and the
  portable even-row unpacker give the same result on the first row, the NEON and the
  portable odd-row unpacker give the same result on the second row, and the frame
  converter built on the NEON unpackers returns normally with the same memory, hence
  the same luma, U and V planes byte for byte, as the one built on the portable
  unpackers.
\<close>

theorem neon_portable_agree:
  assumes "0 < stride" and "stride mod 32 = 0" and "stride \<le> INT_MAX"
    and "0 < height" and "even height" and "height \<le> INT_MAX"
    and "n = nat (stride div 4)" and "P = nat (height div 2)"
    and "planes_apart (2 * P) P n y u v yuyv" and "planes_fit m (2 * P) P n y u v yuyv"
  shows "unpack_even_neon m y u v yuyv stride = unpack_even m y u v yuyv stride \<and>
         unpack_odd_neon m (ptr_add y (stride div 2)) (ptr_add yuyv stride) stride =
           unpack_odd m (ptr_add y (stride div 2)) (ptr_add yuyv stride) stride \<and>
         yuyv_to_yuv420p_neon m y u v yuyv stride height =
           yuyv_to_yuv420p m y u v yuyv stride height \<and>
         (\<exists>m'. yuyv_to_yuv420p_neon m y u v yuyv stride height = Inr m')"
proof -
  have m4: "stride mod 4 = 0" using assms(2) by presburger
  have s: "stride = 4 * int n" using assms(1) m4 assms(7) by (rule valid_stride_eq)
  define nb where "nb = nat (stride div 32)"
  have "stride = 32 * (stride div 32)" using assms(2) by presburger
  moreover from this have "0 \<le> stride div 32" using assms(1) by linarith
  ultimately have "stride = 32 * int nb" unfolding nb_def by simp
  with s have n: "n = 8 * nb" by linarith
  have h: "height \<le> INT_MAX - 1" using assms(5,6) by (rule even_height_no_overflow)
  from even_height_pairs [OF assms(4,5,8)] have P: "pairs height = P" "0 < P" by blast+
  have r0: "0 + 1 \<le> 2 * P" "0 + 1 \<le> P" and r1: "1 + 1 \<le> 2 * P" "0 + 0 \<le> P"
    using P(2) by simp_all
  have "planes_apart 1 1 n y u v yuyv" "planes_fit m 1 1 n y u v yuyv"
    using planes_apart_sub [OF assms(9) r0] planes_fit_sub [OF assms(10) r0] by simp_all
  then have even: "unpack_even_neon m y u v yuyv stride = unpack_even m y u v yuyv stride"
    by (rule unpack_even_neon_eq [OF s n assms(3)])
  have y1: "ptr_add y (stride div 2) = ptr_add y (int (1 * (2 * n)))"
    "ptr_add yuyv stride = ptr_add yuyv (int (1 * (4 * n)))"
    by (simp_all add: s)
  have "apart (ptr_add y (stride div 2)) (2 * n) (ptr_add yuyv stride) (4 * n)"
    "fits m (ptr_add y (stride div 2)) (2 * n)" "fits m (ptr_add yuyv stride) (4 * n)"
    using planes_apart_sub [OF assms(9) r1] planes_fit_sub [OF assms(10) r1]
    unfolding y1 planes_apart_def planes_fit_def by simp_all
  then have odd: "unpack_odd_neon m (ptr_add y (stride div 2)) (ptr_add yuyv stride) stride =
           unpack_odd m (ptr_add y (stride div 2)) (ptr_add yuyv stride) stride"
    by (rule unpack_odd_neon_eq [OF s n assms(3)])
  have frame: "yuyv_to_yuv420p_neon m y u v yuyv stride height =
           yuyv_to_yuv420p m y u v yuyv stride height"
    by (rule yuyv_to_yuv420p_neon_eq [OF s n assms(3) h P(1) assms(9,10)])
  from frame_result [OF assms(9,10)]
  have "\<exists>m'. yuyv_to_yuv420p m y u v yuyv stride height = Inr m'"
    unfolding yuyv_to_yuv420p_valid [OF s assms(3) h] P(1) by blast
  with even odd frame show ?thesis by simp
qed

theorem neon_portable_agree_witness:
  "yuyv_to_yuv420p_neon wide_frame (0, 0) (1, 0) (2, 0) (3, 0) 32 2 =
   yuyv_to_yuv420p wide_frame (0, 0) (1, 0) (2, 0) (3, 0) 32 2"
proof -
  have s: "(0::int) < 32" "(32::int) mod 32 = 0" "(32::int) \<le> INT_MAX"
    and h: "(0::int) < 2" "even (2::int)" "(2::int) \<le> INT_MAX"
    and n: "(8::nat) = nat (32 div 4)" and P: "(1::nat) = nat (2 div 2)"
    by (simp_all add: INT_MAX_def)
  have ap: "planes_apart (2 * 1) 1 8 (0, 0) (1, 0) (2, 0) (3, 0)"
    by (simp add: buffer_defs)
  have fit: "planes_fit wide_frame (2 * 1) 1 8 (0, 0) (1, 0) (2, 0) (3, 0)"
    by (simp add: buffer_defs wide_frame_def)
  from neon_portable_agree [OF s h n P ap fit] show ?thesis by blast
qed

end
